theory Spec2Isabelle
  imports Main
begin

section \<open>Data model\<close>

text \<open>
  The sampler of \<^verbatim>\<open>magellan/sampler/down_sample.py\<close> works on pandas DataFrames.
  A frame is modelled by its columns (name and dtype) and its rows, every row paired with
  its row label. The row axis is either of integer type or of another type (strings):
  this is what decides how \<^verbatim>\<open>.ix\<close> reads a list of integers.
  Exceptions are values of \<open>error\<close>; a function that can raise returns \<open>error + 'a\<close>.
\<close>

datatype error = AssertionError | KeyError | ValueError | IOError | IndexError

datatype dtype = Object | Int64 | Float64

datatype cell = Str string | Num int | NaN

datatype axis = IntIndexed "(int \<times> cell list) list" | ObjIndexed "(string \<times> cell list) list"

record table =
  columns :: "(string \<times> dtype) list"
  body :: axis

text \<open>\<^verbatim>\<open>table.itertuples(index=False)\<close>: the rows in order, without their labels.\<close>

definition itertuples :: "table \<Rightarrow> cell list list" where
  "itertuples t = (case body t of IntIndexed rs \<Rightarrow> map snd rs | ObjIndexed rs \<Rightarrow> map snd rs)"

text \<open>\<^verbatim>\<open>len(table)\<close>.\<close>

definition len :: "table \<Rightarrow> nat" where
  "len t = length (itertuples t)"

section \<open>Strings\<close>

text \<open>
  The string operations of Python the tokenizer uses, on the characters of a string
  (ASCII letters and whitespace): \<^verbatim>\<open>str.lower\<close>, \<^verbatim>\<open>str.rstrip\<close>, \<^verbatim>\<open>str.split\<close> (no
  argument: runs of whitespace separate, no empty word is produced) and \<^verbatim>\<open>str(value)\<close>.
\<close>

definition is_space :: "char \<Rightarrow> bool" where
  "is_space c = (let n = (of_char c :: nat) in n = 32 \<or> (9 \<le> n \<and> n \<le> 13))"

definition lower_char :: "char \<Rightarrow> char" where
  "lower_char c = (let n = (of_char c :: nat) in if 65 \<le> n \<and> n \<le> 90 then char_of (n + 32) else c)"

definition lower :: "string \<Rightarrow> string" where
  "lower s = map lower_char s"

definition rstrip :: "string \<Rightarrow> string" where
  "rstrip s = rev (dropWhile is_space (rev s))"

fun split_from :: "string \<Rightarrow> string \<Rightarrow> string list" where
  "split_from w [] = (if w = [] then [] else [w])"
| "split_from w (c # cs) =
     (if is_space c then (if w = [] then split_from [] cs else w # split_from [] cs)
      else split_from (w @ [c]) cs)"

definition split :: "string \<Rightarrow> string list" where
  "split s = split_from [] s"

fun digits :: "nat \<Rightarrow> string" where
  "digits n = (if n < 10 then [char_of (48 + n)] else digits (n div 10) @ [char_of (48 + n mod 10)])"

definition py_str :: "cell \<Rightarrow> string" where
  "py_str c = (case c of Str s \<Rightarrow> s
                | Num n \<Rightarrow> (if n < 0 then CHR ''-'' # digits (nat (- n)) else digits (nat n))
                | NaN \<Rightarrow> ''nan'')"

section \<open>Stop words and string columns\<close>

text \<open>
  The module runs on Python 2 and on Python 3 (it goes through \<^verbatim>\<open>six\<close>). The two differ in
  what a \<^verbatim>\<open>str\<close> is: on Python 2 a \<^verbatim>\<open>str\<close> is a byte string, on Python 3 it is a text
  string, and a text string is never equal to a byte string. The characters of a string
  are a \<open>string\<close>; as a member of a set it is a \<open>word\<close> that also says which kind it is.
\<close>

datatype python = Python2 | Python3

datatype word = Bytes string | Text string

text \<open>A \<^verbatim>\<open>str\<close> object with the given characters, as a value.\<close>

definition str_object :: "python \<Rightarrow> string \<Rightarrow> word" where
  "str_object py s = (case py of Python2 \<Rightarrow> Bytes s | Python3 \<Rightarrow> Text s)"

text \<open>
  \<^verbatim>\<open>_get_stop_words\<close> reads \<^verbatim>\<open>utils/stop_words.txt\<close> under the install path. The file is
  a parameter of the model: \<open>None\<close> when it cannot be opened (\<^verbatim>\<open>open\<close> raises), else its
  lines. The file is opened in binary mode (\<^verbatim>\<open>"rb"\<close>) and nothing decodes its lines: every
  line is right-stripped and added to the set as a byte string.
\<close>

definition get_stop_words :: "string list option \<Rightarrow> error + word set" where
  "get_stop_words stop_words_file =
     (case stop_words_file of None \<Rightarrow> Inl IOError
      | Some lines \<Rightarrow> Inr (set (map (\<lambda>line. Bytes (rstrip line)) lines)))"

text \<open>
  \<^verbatim>\<open>_get_str_cols_list\<close>: the positions of the columns of dtype object; an empty table is
  refused. (\<^verbatim>\<open>columns.get_loc\<close> of a column's name is that column's position, column names
  being unique.)
\<close>

definition get_str_cols_list :: "table \<Rightarrow> error + nat list" where
  "get_str_cols_list t =
     (if len t = 0 then Inl AssertionError
      else Inr (filter (\<lambda>i. snd (columns t ! i) = Object) [0 ..< length (columns t)]))"

section \<open>Tokenization of a row\<close>

text \<open>
  The inner loop \<^verbatim>\<open>for list_item in str_cols_ix: str_val += str(row[list_item]).lower() + ' '\<close>
  with \<open>str_val\<close> as accumulator. Reading a tuple out of range raises IndexError.
\<close>

fun concat_cols :: "string \<Rightarrow> nat list \<Rightarrow> cell list \<Rightarrow> error + string" where
  "concat_cols str_val [] row = Inr str_val"
| "concat_cols str_val (i # ixs) row =
     (if i < length row then concat_cols (str_val @ lower (py_str (row ! i)) @ '' '') ixs row
      else Inl IndexError)"

text \<open>
  The token set of a row: concatenate, right-strip, split, make a set, and take the set
  difference with the stop words. The tokens are \<^verbatim>\<open>str\<close> objects: the difference removes a
  token when the stop word set holds an equal value. The set is kept as a duplicate-free
  list (a Python set has no order of its own; nothing below depends on the order chosen
  here).
\<close>

definition tokenize :: "python \<Rightarrow> word set \<Rightarrow> nat list \<Rightarrow> cell list \<Rightarrow> error + string list" where
  "tokenize py stop_words str_cols_ix row =
     (case concat_cols [] str_cols_ix row of Inl e \<Rightarrow> Inl e
      | Inr str_val \<Rightarrow>
          Inr (filter (\<lambda>tok. str_object py tok \<notin> stop_words) (remdups (split (rstrip str_val)))))"

section \<open>The inverted index\<close>

type_synonym inverted_index = "string \<rightharpoonup> nat list"

text \<open>The loop \<^verbatim>\<open>for token in str_val\<close> of \<^verbatim>\<open>_inv_index\<close>: append \<open>pos\<close> to the token's list.\<close>

fun add_postings :: "inverted_index \<Rightarrow> nat \<Rightarrow> string list \<Rightarrow> inverted_index" where
  "add_postings idx pos [] = idx"
| "add_postings idx pos (token # toks) =
     add_postings (case idx token of None \<Rightarrow> idx(token \<mapsto> [pos])
                   | Some lst \<Rightarrow> idx(token \<mapsto> lst @ [pos])) pos toks"

text \<open>The loop \<^verbatim>\<open>for row in table.itertuples(index=False)\<close> with its counter \<open>pos\<close>.\<close>

fun index_rows :: "python \<Rightarrow> word set \<Rightarrow> nat list \<Rightarrow> inverted_index \<Rightarrow> nat \<Rightarrow> cell list list
                   \<Rightarrow> error + inverted_index" where
  "index_rows py stop_words str_cols_ix idx pos [] = Inr idx"
| "index_rows py stop_words str_cols_ix idx pos (row # rs) =
     (case tokenize py stop_words str_cols_ix row of Inl e \<Rightarrow> Inl e
      | Inr toks \<Rightarrow> index_rows py stop_words str_cols_ix (add_postings idx pos toks) (pos + 1) rs)"

definition inv_index :: "python \<Rightarrow> string list option \<Rightarrow> table \<Rightarrow> error + inverted_index" where
  "inv_index py stop_words_file t =
     (case get_stop_words stop_words_file of Inl e \<Rightarrow> Inl e
      | Inr stop_words \<Rightarrow>
        (case get_str_cols_list t of Inl e \<Rightarrow> Inl e
         | Inr str_cols_ix \<Rightarrow> index_rows py stop_words str_cols_ix Map.empty 0 (itertuples t)))"

section \<open>Random draws\<close>

text \<open>
  The random generators are a stream \<open>rng :: nat \<Rightarrow> nat\<close> of raw draws, read at a cursor
  that every draw advances. \<^verbatim>\<open>random.choice(seq)\<close> raises IndexError on an empty sequence;
  \<^verbatim>\<open>randint(lo, hi)\<close> raises ValueError on an empty range. A raw draw is reduced into the
  range, so every outcome of the library function is the image of some raw draw.
\<close>

definition random_choice :: "nat list \<Rightarrow> nat \<Rightarrow> error + nat" where
  "random_choice seq r = (if seq = [] then Inl IndexError else Inr (seq ! (r mod length seq)))"

definition randint :: "int \<Rightarrow> int \<Rightarrow> nat \<Rightarrow> error + nat" where
  "randint lo hi r = (if hi < lo then Inl ValueError else Inr (nat (lo + int r mod (hi - lo + 1))))"

text \<open>
  \<^verbatim>\<open>numpy.random.choice(n, size, replace=False)\<close>: \<open>size\<close> distinct values of \<open>0 ..< n\<close>,
  drawn one after the other from what is left. A negative size, an empty population and a
  sample larger than the population raise ValueError.
\<close>

fun draw_without_replacement :: "(nat \<Rightarrow> nat) \<Rightarrow> nat \<Rightarrow> nat list \<Rightarrow> nat \<Rightarrow> nat \<times> nat list" where
  "draw_without_replacement rng i pool 0 = (i, [])"
| "draw_without_replacement rng i pool (Suc m) =
     (if pool = [] then (i, [])
      else let x = pool ! (rng i mod length pool);
               (i', xs) = draw_without_replacement rng (Suc i) (removeAll x pool) m
           in (i', x # xs))"

definition np_random_choice :: "(nat \<Rightarrow> nat) \<Rightarrow> nat \<Rightarrow> nat \<Rightarrow> int \<Rightarrow> error + nat \<times> nat list" where
  "np_random_choice rng i n sz =
     (if n = 0 \<or> sz < 0 \<or> int n < sz then Inl ValueError
      else Inr (draw_without_replacement rng i [0 ..< n] (nat sz)))"

section \<open>Probing the index\<close>

text \<open>
  Both \<^verbatim>\<open>while\<close> loops of \<^verbatim>\<open>_probe_index\<close> have one shape:
  \<^verbatim>\<open>while len(smpl_pos_neg) < bound: smpl_pos_neg.add(draw())\<close>.
  Nothing bounds the number of rejected draws, so the loop is a partial function:
  \<open>None\<close> is a run that never leaves the loop.
\<close>

partial_function (option) sample_until ::
  "(nat \<Rightarrow> error + nat) \<Rightarrow> (nat \<Rightarrow> nat) \<Rightarrow> nat \<Rightarrow> int \<Rightarrow> nat set \<Rightarrow> (error + nat \<times> nat set) option" where
  "sample_until draw rng i bound smpl_pos_neg =
     (if int (card smpl_pos_neg) < bound
      then (case draw (rng i) of Inl e \<Rightarrow> Some (Inl e)
            | Inr num \<Rightarrow> sample_until draw rng (Suc i) bound (insert num smpl_pos_neg))
      else Some (Inr (i, smpl_pos_neg)))"

declare sample_until.simps [code]

text \<open>\<^verbatim>\<open>s.update(t)\<close> on Python sets.\<close>

definition set_update :: "nat set \<Rightarrow> nat set \<Rightarrow> nat set" where
  "set_update s t = s \<union> t"

text \<open>The loop \<^verbatim>\<open>for token in str_val\<close> that collects \<open>match\<close>.\<close>

fun collect_match :: "inverted_index \<Rightarrow> nat set \<Rightarrow> string list \<Rightarrow> nat set" where
  "collect_match s_inv_index match [] = match"
| "collect_match s_inv_index match (token # toks) =
     collect_match s_inv_index
       (case s_inv_index token of None \<Rightarrow> match | Some ids \<Rightarrow> set_update match (set ids)) toks"

text \<open>
  The selection for one probed row (lines 119 to 139): \<open>k\<close> draws from \<open>match\<close>, then the
  fill from \<open>0 ..< s_tbl_sz\<close>. \<^verbatim>\<open>list(match)\<close> is taken in increasing order.
\<close>

definition probe_row ::
  "(nat \<Rightarrow> nat) \<Rightarrow> nat \<Rightarrow> inverted_index \<Rightarrow> int \<Rightarrow> int \<Rightarrow> nat \<Rightarrow> string list
   \<Rightarrow> (error + nat \<times> nat set) option" where
  "probe_row rng i s_inv_index y_pos y_param s_tbl_sz str_val =
     (let match = collect_match s_inv_index {} str_val;
          k = min y_pos (int (card match));
          match_list = sorted_list_of_set match
      in case sample_until (random_choice match_list) rng i k {} of
           None \<Rightarrow> None
         | Some (Inl e) \<Rightarrow> Some (Inl e)
         | Some (Inr (i', smpl_pos_neg)) \<Rightarrow>
             sample_until (randint 0 (int s_tbl_sz - 1)) rng i' y_param smpl_pos_neg)"

text \<open>The loop \<^verbatim>\<open>for row in table_b.itertuples(index=False)\<close> with the accumulator \<open>h_table\<close>.\<close>

fun probe_rows ::
  "python \<Rightarrow> word set \<Rightarrow> nat list \<Rightarrow> (nat \<Rightarrow> nat) \<Rightarrow> nat \<Rightarrow> inverted_index \<Rightarrow> int \<Rightarrow> int \<Rightarrow> nat
   \<Rightarrow> nat set \<Rightarrow> cell list list \<Rightarrow> (error + nat \<times> nat set) option" where
  "probe_rows py stop_words str_cols_ix rng i s_inv_index y_pos y_param s_tbl_sz h_table [] =
     Some (Inr (i, h_table))"
| "probe_rows py stop_words str_cols_ix rng i s_inv_index y_pos y_param s_tbl_sz h_table (row # rs) =
     (case tokenize py stop_words str_cols_ix row of Inl e \<Rightarrow> Some (Inl e)
      | Inr str_val \<Rightarrow>
        (case probe_row rng i s_inv_index y_pos y_param s_tbl_sz str_val of
           None \<Rightarrow> None
         | Some (Inl e) \<Rightarrow> Some (Inl e)
         | Some (Inr (i', smpl_pos_neg)) \<Rightarrow>
             probe_rows py stop_words str_cols_ix rng i' s_inv_index y_pos y_param s_tbl_sz
               (set_update h_table smpl_pos_neg) rs))"

definition probe_index ::
  "python \<Rightarrow> string list option \<Rightarrow> (nat \<Rightarrow> nat) \<Rightarrow> nat \<Rightarrow> table \<Rightarrow> int \<Rightarrow> nat \<Rightarrow> inverted_index
   \<Rightarrow> (error + nat \<times> nat set) option" where
  "probe_index py stop_words_file rng i table_b y_param s_tbl_sz s_inv_index =
     (let y_pos = y_param div 2 in
      case get_stop_words stop_words_file of Inl e \<Rightarrow> Some (Inl e)
      | Inr stop_words \<Rightarrow>
        (case get_str_cols_list table_b of Inl e \<Rightarrow> Some (Inl e)
         | Inr str_cols_ix \<Rightarrow>
             probe_rows py stop_words str_cols_ix rng i s_inv_index y_pos y_param s_tbl_sz {}
               (itertuples table_b)))"

section \<open>Selecting rows of a frame\<close>

text \<open>
  \<^verbatim>\<open>table.iloc[positions]\<close> selects by zero-based position and raises IndexError out of
  range. It builds a new frame: the rows at the positions, with their labels.
\<close>

definition iloc :: "table \<Rightarrow> nat list \<Rightarrow> error + table" where
  "iloc t positions =
     (if list_all (\<lambda>p. p < len t) positions
      then Inr (t\<lparr>body := (case body t of
                    IntIndexed rs \<Rightarrow> IntIndexed (map (\<lambda>p. rs ! p) positions)
                  | ObjIndexed rs \<Rightarrow> ObjIndexed (map (\<lambda>p. rs ! p) positions))\<rparr>)
      else Inl IndexError)"

text \<open>
  \<^verbatim>\<open>table.ix[keys]\<close> with a list of integers. On a row axis of integer type the integers
  are labels, never positions: the result has the rows that carry each label, and a row of
  NaN for a label no row carries. On a row axis of another type the integers are positions.
\<close>

definition ix :: "table \<Rightarrow> nat list \<Rightarrow> error + table" where
  "ix t keys =
     (case body t of
        IntIndexed rs \<Rightarrow>
          Inr (t\<lparr>body := IntIndexed (concat (map (\<lambda>k.
                 (case filter (\<lambda>lr. fst lr = int k) rs of
                    [] \<Rightarrow> [(int k, replicate (length (columns t)) NaN)]
                  | hit # hits \<Rightarrow> hit # hits)) keys))\<rparr>)
      | ObjIndexed rs \<Rightarrow> iloc t keys)"

section \<open>Frames as objects, and the catalog\<close>

text \<open>
  The catalog keys its entries by \<^verbatim>\<open>id(df)\<close>, so frames are objects with an identity:
  the world holds the live frames in a list, and a frame's identity is its place there.
  A new frame is added at the end. The world also holds the catalog and the warnings
  logged so far. Both arguments of \<^verbatim>\<open>down_sample\<close> are objects: a frame of the world,
  or something that is not a frame.
\<close>

datatype prop_value = PStr string | PFrame nat

text \<open>
  A Python dict whose items are read in order is a list of items with distinct keys:
  \<open>map_of\<close> looks a key up, \<open>dict_set\<close> is \<^verbatim>\<open>d[key] = value\<close>.
\<close>

fun dict_set :: "'k \<Rightarrow> 'v \<Rightarrow> ('k \<times> 'v) list \<Rightarrow> ('k \<times> 'v) list" where
  "dict_set key v [] = [(key, v)]"
| "dict_set key v ((k, u) # d) = (if k = key then (k, v) # d else (k, u) # dict_set key v d)"

type_synonym properties = "(string \<times> prop_value) list"

record world =
  frames :: "table list"
  catalog :: "(nat \<times> properties) list"
  warnings :: "string list"

datatype pyobj = DataFrame nat | NotAFrame

text \<open>\<^verbatim>\<open>isinstance(obj, pd.DataFrame)\<close>.\<close>

definition is_DataFrame :: "world \<Rightarrow> pyobj \<Rightarrow> bool" where
  "is_DataFrame w obj = (case obj of DataFrame df \<Rightarrow> df < length (frames w) | NotAFrame \<Rightarrow> False)"

text \<open>\<^verbatim>\<open>id(df)\<close> of a frame.\<close>

definition id_of :: "pyobj \<Rightarrow> nat" where
  "id_of obj = (case obj of DataFrame df \<Rightarrow> df | NotAFrame \<Rightarrow> 0)"

definition new_frame :: "world \<Rightarrow> table \<Rightarrow> nat \<times> world" where
  "new_frame w t = (length (frames w), w\<lparr>frames := frames w @ [t]\<rparr>)"

text \<open>
  Modelled from the spec: the class \<^verbatim>\<open>Catalog\<close> of \<^verbatim>\<open>magellan/catalog/catalog.py\<close> is not
  among the sources. A table has a catalog entry, keyed by its identity, or it has none.
\<close>

definition is_df_info_present_in_catalog :: "world \<Rightarrow> nat \<Rightarrow> bool" where
  "is_df_info_present_in_catalog w df = (map_of (catalog w) df \<noteq> None)"

text \<open>
  Modelled from the spec: \<^verbatim>\<open>Catalog.init_properties\<close>, not among the sources, creates the
  entry of a table, with no property.
\<close>

definition catalog_init_properties :: "world \<Rightarrow> nat \<Rightarrow> world" where
  "catalog_init_properties w df = w\<lparr>catalog := dict_set df [] (catalog w)\<rparr>"

text \<open>
  Modelled from the spec: \<^verbatim>\<open>Catalog.set_property\<close>, not among the sources, sets one
  property in the entry of a table.
\<close>

definition catalog_set_property :: "world \<Rightarrow> nat \<Rightarrow> string \<Rightarrow> prop_value \<Rightarrow> world" where
  "catalog_set_property w df name v =
     w\<lparr>catalog := dict_set df
          (dict_set name v (case map_of (catalog w) df of None \<Rightarrow> [] | Some ps \<Rightarrow> ps))
          (catalog w)\<rparr>"

text \<open>
  Modelled from the spec: \<^verbatim>\<open>Catalog.get_all_properties\<close>, not among the sources, gives the
  properties of a table and fails with a not-found error if the table has no entry.
\<close>

definition catalog_get_all_properties :: "world \<Rightarrow> nat \<Rightarrow> error + properties" where
  "catalog_get_all_properties w df =
     (case map_of (catalog w) df of None \<Rightarrow> Inl KeyError | Some ps \<Rightarrow> Inr ps)"

text \<open>\<^verbatim>\<open>set_properties\<close> of \<^verbatim>\<open>catalog_manager.py\<close>.\<close>

definition set_properties :: "world \<Rightarrow> pyobj \<Rightarrow> properties \<Rightarrow> bool \<Rightarrow> error + bool \<times> world" where
  "set_properties w df prop_dict replace =
     (if \<not> is_DataFrame w df then Inl AssertionError
      else if is_df_info_present_in_catalog w (id_of df) \<and> \<not> replace
      then Inr (False, w\<lparr>warnings := warnings w @ [''Properties already exists for df. Not replacing it'']\<rparr>)
      else let w1 = (if \<not> is_df_info_present_in_catalog w (id_of df)
                     then catalog_init_properties w (id_of df) else w)
           in Inr (True, fold (\<lambda>kv w'. catalog_set_property w' (id_of df) (fst kv) (snd kv)) prop_dict w1))"

text \<open>\<^verbatim>\<open>copy_properties\<close> of \<^verbatim>\<open>catalog_manager.py\<close>.\<close>

definition copy_properties :: "world \<Rightarrow> pyobj \<Rightarrow> pyobj \<Rightarrow> bool \<Rightarrow> error + bool \<times> world" where
  "copy_properties w src tar update =
     (if \<not> is_DataFrame w src then Inl AssertionError
      else if \<not> is_DataFrame w tar then Inl AssertionError
      else if \<not> is_df_info_present_in_catalog w (id_of src) then Inl KeyError
      else (case catalog_get_all_properties w (id_of src) of Inl e \<Rightarrow> Inl e
            | Inr metadata \<Rightarrow> set_properties w tar metadata update))"

section \<open>The down sampler\<close>

text \<open>
  \<^verbatim>\<open>down_sample(table_a, table_b, size, y_param)\<close>, the parameter \<^verbatim>\<open>size\<close> written
  \<open>b_size\<close>. The result is \<open>None\<close> when a sampling
  loop never ends, an error when the call raises, and else the identities of the two new
  frames with the world after the call.
\<close>

definition down_sample ::
  "python \<Rightarrow> string list option \<Rightarrow> (nat \<Rightarrow> nat) \<Rightarrow> world \<Rightarrow> pyobj \<Rightarrow> pyobj \<Rightarrow> int \<Rightarrow> int
   \<Rightarrow> (error + (nat \<times> nat) \<times> world) option" where
  "down_sample py stop_words_file rng w table_a table_b b_size y_param =
     (if \<not> is_DataFrame w table_a then Some (Inl AssertionError)
      else if \<not> is_DataFrame w table_b then Some (Inl AssertionError)
      else let a = frames w ! id_of table_a; b = frames w ! id_of table_b in
      if len a = 0 \<or> len b = 0 then Some (Inl AssertionError)
      else if b_size = 0 \<or> y_param = 0 then Some (Inl AssertionError)
      else let w1 = (if int (len b) < b_size
                     then w\<lparr>warnings := warnings w @
                            [''Size of table B is less than b_size parameter - using entire table B'']\<rparr>
                     else w) in
      case inv_index py stop_words_file a of Inl e \<Rightarrow> Some (Inl e)
      | Inr s_inv_index \<Rightarrow>
      let b_sample_size = min b_size (int (len b)) in
      case np_random_choice rng 0 (len b) b_sample_size of Inl e \<Rightarrow> Some (Inl e)
      | Inr (i1, b_tbl_indices) \<Rightarrow>
      case ix b b_tbl_indices of Inl e \<Rightarrow> Some (Inl e)
      | Inr b_probed \<Rightarrow>
      case probe_index py stop_words_file rng i1 b_probed y_param (len a) s_inv_index of
        None \<Rightarrow> None
      | Some (Inl e) \<Rightarrow> Some (Inl e)
      | Some (Inr (i2, h_table)) \<Rightarrow>
      let s_tbl_indices = sorted_list_of_set h_table in
      case iloc a s_tbl_indices of Inl e \<Rightarrow> Some (Inl e)
      | Inr l_frame \<Rightarrow>
      case iloc b b_tbl_indices of Inl e \<Rightarrow> Some (Inl e)
      | Inr r_frame \<Rightarrow>
      let (l_sampled, w2) = new_frame w1 l_frame;
          (r_sampled, w3) = new_frame w2 r_frame in
      case copy_properties w3 table_a (DataFrame l_sampled) True of Inl e \<Rightarrow> Some (Inl e)
      | Inr (ok_a, w4) \<Rightarrow>
      case copy_properties w4 table_b (DataFrame r_sampled) True of Inl e \<Rightarrow> Some (Inl e)
      | Inr (ok_b, w5) \<Rightarrow> Some (Inr ((l_sampled, r_sampled), w5)))"

section \<open>Conditions on the inputs\<close>

text \<open>
  A draw stream is fair when every residue of every modulus comes back after every
  cursor. A stream that stays on one value forever keeps a rejection loop running; it is
  not fair. Independent uniform draws, which is what the library generators stand for,
  give a fair stream with probability one.
\<close>

definition fair :: "(nat \<Rightarrow> nat) \<Rightarrow> bool" where
  "fair rng = (\<forall>m v i. v < m \<longrightarrow> (\<exists>j\<ge>i. rng j mod m = v))"

text \<open>A frame where every row has one cell for every column, as pandas keeps it.\<close>

definition rectangular :: "table \<Rightarrow> bool" where
  "rectangular t = list_all (\<lambda>row. length row = length (columns t)) (itertuples t)"

section \<open>Example inputs\<close>

text \<open>
  Two small frames, a world that holds them with their catalog entries, and a stop word
  file. The row labels of \<open>example_b\<close> are integers that differ from the positions.
\<close>

definition example_a :: table where
  "example_a = \<lparr>columns = [(''name'', Object), (''qty'', Int64)],
                 body = IntIndexed [(0, [Str ''Apple pie'', Num 3]),
                                    (1, [Str ''The Pear'', Num 5]),
                                    (2, [Str ''kiwi of pear'', Num 7])]\<rparr>"

definition example_b :: table where
  "example_b = \<lparr>columns = [(''name'', Object)],
                 body = IntIndexed [(1, [Str ''apple'']), (0, [Str ''kiwi''])]\<rparr>"

definition example_world :: world where
  "example_world = \<lparr>frames = [example_a, example_b],
                     catalog = [(0, [(''key'', PStr ''name'')]), (1, [])],
                     warnings = []\<rparr>"

definition example_stop_words_file :: "string list option" where
  "example_stop_words_file = Some [''the'' @ [CHR 0x0A], ''of'' @ [CHR 0x0A]]"

section \<open>Properties of the inverted index\<close>

lemma tokenize_no_stop_words:
  "tokenize py stop_words cols row = Inr toks \<Longrightarrow> tok \<in> set toks \<Longrightarrow> str_object py tok \<notin> stop_words"
  by (auto simp: tokenize_def split: sum.splits)

lemma tokenize_distinct:
  "tokenize py stop_words cols row = Inr toks \<Longrightarrow> distinct toks"
  by (auto simp: tokenize_def split: sum.splits)

lemma add_postings_lookup:
  "distinct toks \<Longrightarrow>
   add_postings idx pos toks t =
     (if t \<in> set toks then Some ((case idx t of None \<Rightarrow> [] | Some lst \<Rightarrow> lst) @ [pos]) else idx t)"
  by (induction toks arbitrary: idx) (auto split: option.splits)

lemma add_postings_dom: "dom (add_postings idx pos toks) = dom idx \<union> set toks"
  by (induction toks arbitrary: idx) (auto split: option.splits)

lemma index_rows_dom:
  "index_rows py stop_words cols idx pos rs = Inr idx' \<Longrightarrow>
   \<forall>tok\<in>dom idx. str_object py tok \<notin> stop_words \<Longrightarrow>
   \<forall>tok\<in>dom idx'. str_object py tok \<notin> stop_words"
proof (induction rs arbitrary: idx pos)
  case Nil
  then show ?case by simp
next
  case (Cons row rs)
  from Cons.prems(1) obtain toks where t: "tokenize py stop_words cols row = Inr toks"
    and r: "index_rows py stop_words cols (add_postings idx pos toks) (pos + 1) rs = Inr idx'"
    by (auto split: sum.splits)
  have "\<forall>tok\<in>dom (add_postings idx pos toks). str_object py tok \<notin> stop_words"
    using tokenize_no_stop_words[OF t] Cons.prems(2) by (auto simp: add_postings_dom)
  from Cons.IH[OF r this] show ?case .
qed

lemma add_postings_below:
  assumes "distinct toks"
    and "\<And>tok ids. idx tok = Some ids \<Longrightarrow> distinct ids \<and> (\<forall>p\<in>set ids. p < pos)"
    and "add_postings idx pos toks tok = Some ids"
  shows "distinct ids \<and> (\<forall>p\<in>set ids. p < Suc pos)"
proof (cases "tok \<in> set toks")
  case False
  then have "idx tok = Some ids" using assms(1,3) by (simp add: add_postings_lookup)
  from assms(2)[OF this] show ?thesis by auto
next
  case True
  then have ids: "ids = (case idx tok of None \<Rightarrow> [] | Some lst \<Rightarrow> lst) @ [pos]"
    using assms(1,3) by (simp add: add_postings_lookup)
  show ?thesis
  proof (cases "idx tok")
    case None
    then show ?thesis using ids by simp
  next
    case (Some lst)
    from assms(2)[OF Some] show ?thesis using ids Some by auto
  qed
qed

lemma index_rows_below:
  assumes "index_rows py stop_words cols idx pos rs = Inr idx'"
    and "\<And>tok ids. idx tok = Some ids \<Longrightarrow> distinct ids \<and> (\<forall>p\<in>set ids. p < pos)"
    and "idx' tok = Some ids"
  shows "distinct ids \<and> (\<forall>p\<in>set ids. p < pos + length rs)"
  using assms
proof (induction rs arbitrary: idx pos)
  case Nil
  then show ?case by auto
next
  case (Cons row rs)
  from Cons.prems(1) obtain toks where t: "tokenize py stop_words cols row = Inr toks"
    and r: "index_rows py stop_words cols (add_postings idx pos toks) (pos + 1) rs = Inr idx'"
    by (auto split: sum.splits)
  have step: "\<And>tok ids. add_postings idx pos toks tok = Some ids \<Longrightarrow>
            distinct ids \<and> (\<forall>p\<in>set ids. p < pos + 1)"
    using add_postings_below[OF tokenize_distinct[OF t] Cons.prems(2)] by simp
  from Cons.IH[OF r step Cons.prems(3)] show ?case by simp
qed

lemma inv_index_below:
  assumes "inv_index py stop_words_file t = Inr idx" and "idx tok = Some ids"
  shows "distinct ids \<and> (\<forall>p\<in>set ids. p < len t)"
proof -
  from assms(1) obtain sw cols where
    r: "index_rows py sw cols Map.empty 0 (itertuples t) = Inr idx"
    by (auto simp: inv_index_def split: sum.splits)
  have "distinct ids \<and> (\<forall>p\<in>set ids. p < 0 + length (itertuples t))"
    by (rule index_rows_below[OF r _ assms(2)]) simp
  then show ?thesis by (simp add: len_def)
qed

lemma inv_index_dom:
  assumes "get_stop_words stop_words_file = Inr stop_words"
    and "inv_index py stop_words_file t = Inr idx"
  shows "\<forall>tok\<in>dom idx. str_object py tok \<notin> stop_words"
proof -
  from assms obtain cols where
    r: "index_rows py stop_words cols Map.empty 0 (itertuples t) = Inr idx"
    by (auto simp: inv_index_def split: sum.splits)
  show ?thesis by (rule index_rows_dom[OF r]) simp
qed

text \<open>
  On Python 2 the tokens are byte strings as the stop words are: no line of the stop
  word file, right-stripped, is a key of the index.
\<close>

lemma python2_stop_words_not_indexed:
  assumes "inv_index Python2 (Some lines) t = Inr idx" "line \<in> set lines"
  shows "idx (rstrip line) = None"
proof -
  have g: "get_stop_words (Some lines) = Inr (set (map (\<lambda>line. Bytes (rstrip line)) lines))"
    by (simp add: get_stop_words_def)
  have "Bytes (rstrip line) \<in> set (map (\<lambda>line. Bytes (rstrip line)) lines)"
    using assms(2) by auto
  then have "str_object Python2 (rstrip line) \<in> set (map (\<lambda>line. Bytes (rstrip line)) lines)"
    by (simp add: str_object_def)
  then have "rstrip line \<notin> dom idx" using inv_index_dom[OF g assms(1)] by blast
  then show ?thesis by auto
qed

text \<open>
  On Python 3 the tokens are text strings and the stop words are byte strings: the set
  difference removes nothing, whatever the file holds.
\<close>

lemma python3_difference_removes_nothing:
  assumes "get_stop_words stop_words_file = Inr stop_words"
  shows "tokenize Python3 stop_words cols row = tokenize Python3 {} cols row"
proof -
  from assms obtain lines where "stop_words = set (map (\<lambda>line. Bytes (rstrip line)) lines)"
    by (auto simp: get_stop_words_def split: option.splits)
  then have "(\<lambda>tok. str_object Python3 tok \<notin> stop_words) = (\<lambda>tok. str_object Python3 tok \<notin> {})"
    by (auto simp: str_object_def)
  then show ?thesis by (simp only: tokenize_def)
qed

section \<open>The candidate pool\<close>

lemma collect_match_union:
  "collect_match idx m toks = m \<union> \<Union> {set ids | tok ids. tok \<in> set toks \<and> idx tok = Some ids}"
proof (induction toks arbitrary: m)
  case Nil
  then show ?case by simp
next
  case (Cons t toks)
  show ?case
  proof (cases "idx t")
    case None
    then show ?thesis by (simp add: Cons.IH) (rule arg_cong[where f = "\<lambda>X. m \<union> \<Union> X"], auto)
  next
    case (Some ids0)
    have "{set ids | tok ids. tok \<in> set (t # toks) \<and> idx tok = Some ids}
        = insert (set ids0) {set ids | tok ids. tok \<in> set toks \<and> idx tok = Some ids}"
      using Some by auto
    then show ?thesis using Some by (simp add: Cons.IH set_update_def Un_assoc)
  qed
qed

lemma collect_match_finite: "finite m \<Longrightarrow> finite (collect_match idx m toks)"
  by (induction toks arbitrary: m) (auto simp: set_update_def split: option.splits)

lemma collect_match_below:
  assumes "\<And>tok ids. idx tok = Some ids \<Longrightarrow> \<forall>p\<in>set ids. p < n"
  shows "collect_match idx {} toks \<subseteq> {..<n}"
  using assms by (subst collect_match_union) auto

section \<open>The sampling loop\<close>

lemma sample_until_sound_aux:
  assumes "sample_until draw rng i bound S = Some y"
  shows "\<forall>i' S'. finite S \<longrightarrow> y = Inr (i', S') \<longrightarrow>
         S \<subseteq> S' \<and> finite S' \<and> i \<le> i' \<and> S' - S \<subseteq> {x. \<exists>r. draw r = Inr x} \<and>
         (if int (card S) < bound then int (card S') = bound else S' = S \<and> i' = i)"
proof (rule sample_until.raw_induct[OF _ assms])
  fix loop :: "(nat \<Rightarrow> error + nat) \<Rightarrow> (nat \<Rightarrow> nat) \<Rightarrow> nat \<Rightarrow> int \<Rightarrow> nat set \<Rightarrow> (error + nat \<times> nat set) option"
  fix draw rng i bound S y
  assume IH: "\<And>draw rng i bound S y. loop draw rng i bound S = Some y \<Longrightarrow>
         \<forall>i' S'. finite S \<longrightarrow> y = Inr (i', S') \<longrightarrow>
         S \<subseteq> S' \<and> finite S' \<and> i \<le> i' \<and> S' - S \<subseteq> {x. \<exists>r. draw r = Inr x} \<and>
         (if int (card S) < bound then int (card S') = bound else S' = S \<and> i' = i)"
  assume eq: "(if int (card S) < bound
      then (case draw (rng i) of Inl e \<Rightarrow> Some (Inl e)
            | Inr num \<Rightarrow> loop draw rng (Suc i) bound (insert num S))
      else Some (Inr (i, S))) = Some y"
  show "\<forall>i' S'. finite S \<longrightarrow> y = Inr (i', S') \<longrightarrow>
         S \<subseteq> S' \<and> finite S' \<and> i \<le> i' \<and> S' - S \<subseteq> {x. \<exists>r. draw r = Inr x} \<and>
         (if int (card S) < bound then int (card S') = bound else S' = S \<and> i' = i)"
  proof (intro allI impI)
    fix i' S'
    assume fin0: "finite S" and y: "y = Inr (i', S')"
    show "S \<subseteq> S' \<and> finite S' \<and> i \<le> i' \<and> S' - S \<subseteq> {x. \<exists>r. draw r = Inr x} \<and>
         (if int (card S) < bound then int (card S') = bound else S' = S \<and> i' = i)"
    proof (cases "int (card S) < bound")
      case False
      with eq y fin0 show ?thesis by auto
    next
      case True
      with eq y obtain num where d: "draw (rng i) = Inr num"
        and rec: "loop draw rng (Suc i) bound (insert num S) = Some (Inr (i', S'))"
        by (auto split: sum.splits)
      have fin: "finite (insert num S)" using fin0 by simp
      have ih: "insert num S \<subseteq> S' \<and> finite S' \<and> Suc i \<le> i' \<and>
          S' - insert num S \<subseteq> {x. \<exists>r. draw r = Inr x} \<and>
         (if int (card (insert num S)) < bound then int (card S') = bound
          else S' = insert num S \<and> i' = Suc i)"
        using IH[OF rec] fin by blast
      have cardle: "int (card (insert num S)) \<le> bound"
        using True fin0 by (simp add: card_insert_if)
      have "int (card S') = bound"
      proof (cases "int (card (insert num S)) < bound")
        case True
        then show ?thesis using ih by simp
      next
        case False
        then have "S' = insert num S" using ih by simp
        then show ?thesis using False cardle by simp
      qed
      moreover have "S' - S \<subseteq> {x. \<exists>r. draw r = Inr x}"
        using ih d by auto
      ultimately show ?thesis using ih True by auto
    qed
  qed
qed

lemma sample_until_sound:
  assumes "sample_until draw rng i bound S = Some (Inr (i', S'))" and "finite S"
  shows "S \<subseteq> S'" "finite S'" "i \<le> i'" "S' - S \<subseteq> {x. \<exists>r. draw r = Inr x}"
        "int (card S) < bound \<Longrightarrow> int (card S') = bound"
        "\<not> int (card S) < bound \<Longrightarrow> S' = S \<and> i' = i"
  using sample_until_sound_aux[OF assms(1)] assms(2) by auto

text \<open>Progress: a fresh element is eventually drawn.\<close>

lemma sample_until_progress:
  assumes "draw (rng (i + d)) = Inr x" "x \<notin> S" "finite S" "int (card S) < bound"
    and "\<forall>r. \<exists>z. draw r = Inr z \<and> z \<in> P"
  shows "\<exists>i2 S2. sample_until draw rng i bound S = sample_until draw rng i2 bound S2
            \<and> S \<subseteq> S2 \<and> S2 \<subseteq> S \<union> P \<and> card S2 = Suc (card S)"
  using assms
proof (induction d arbitrary: i)
  case 0
  then have xP: "x \<in> P" by (metis Inr_inject add.right_neutral)
  have "sample_until draw rng i bound S = sample_until draw rng (Suc i) bound (insert x S)"
    using 0 by (subst sample_until.simps) simp
  moreover have "card (insert x S) = Suc (card S)" using 0 by simp
  ultimately show ?case using xP by (intro exI[of _ "Suc i"] exI[of _ "insert x S"]) auto
next
  case (Suc d)
  obtain z where z: "draw (rng i) = Inr z" "z \<in> P" using Suc.prems(5) by blast
  have step: "sample_until draw rng i bound S = sample_until draw rng (Suc i) bound (insert z S)"
    using Suc.prems z by (subst sample_until.simps) simp
  show ?case
  proof (cases "z \<in> S")
    case True
    then have same: "insert z S = S" by auto
    have "draw (rng (Suc i + d)) = Inr x" using Suc.prems(1) by simp
    from Suc.IH[OF this Suc.prems(2,3,4,5)] step same show ?thesis by simp
  next
    case False
    then have "card (insert z S) = Suc (card S)" using Suc.prems by simp
    then show ?thesis using step z
      by (intro exI[of _ "Suc i"] exI[of _ "insert z S"]) auto
  qed
qed

lemma sample_until_total:
  assumes hit: "\<forall>x\<in>P. \<forall>i. \<exists>j\<ge>i. draw (rng j) = Inr x"
    and ran: "\<forall>r. \<exists>z. draw r = Inr z \<and> z \<in> P"
    and "finite S" "finite P" "bound \<le> int (card (S \<union> P))"
  shows "\<exists>i' S'. sample_until draw rng i bound S = Some (Inr (i', S'))"
  using assms(3,5)
proof (induction "nat (bound - int (card S))" arbitrary: i S rule: less_induct)
  case less
  show ?case
  proof (cases "int (card S) < bound")
    case False
    then show ?thesis by (subst sample_until.simps) simp
  next
    case True
    have "card S < card (S \<union> P)" using True less.prems by linarith
    then have "S \<noteq> S \<union> P" by auto
    then obtain x where x: "x \<in> P" "x \<notin> S" by auto
    then obtain j where j: "j \<ge> i" "draw (rng j) = Inr x" using hit by blast
    then have "draw (rng (i + (j - i))) = Inr x" by simp
    from sample_until_progress[of draw rng i "j - i" x S bound P, OF this x(2) less.prems(1) True ran]
    obtain i2 S2 where s2: "sample_until draw rng i bound S = sample_until draw rng i2 bound S2"
      "S \<subseteq> S2" "S2 \<subseteq> S \<union> P" "card S2 = Suc (card S)" by blast
    have fin2: "finite S2" using s2(3) less.prems(1) \<open>finite P\<close> by (meson finite_UnI finite_subset)
    have "S2 \<union> P = S \<union> P" using s2 by auto
    then have b2: "bound \<le> int (card (S2 \<union> P))" using less.prems by simp
    have "nat (bound - int (card S2)) < nat (bound - int (card S))" using s2(4) True by linarith
    from less.hyps[OF this fin2 b2] s2(1) show ?thesis by simp
  qed
qed


section \<open>The library draws\<close>

lemma fair_id: "fair (\<lambda>i. i)"
  unfolding fair_def
proof (intro allI impI)
  fix m v i :: nat
  assume "v < m"
  then have "i \<le> i * m" by (cases m) simp_all
  then have "i * m + v \<ge> i" by linarith
  moreover have "(i * m + v) mod m = v" using \<open>v < m\<close> by simp
  ultimately show "\<exists>j\<ge>i. j mod m = v" by blast
qed

lemma random_choice_range:
  "ml \<noteq> [] \<Longrightarrow> \<exists>z. random_choice ml r = Inr z \<and> z \<in> set ml"
  by (simp add: random_choice_def)

lemma random_choice_hits:
  assumes "fair rng" "x \<in> set ml"
  shows "\<exists>j\<ge>i. random_choice ml (rng j) = Inr x"
proof -
  from assms(2) obtain v where v: "v < length ml" "ml ! v = x" by (auto simp: in_set_conv_nth)
  with assms(1) obtain j where "j \<ge> i" "rng j mod length ml = v" unfolding fair_def by blast
  with v show ?thesis by (auto simp: random_choice_def intro!: exI[of _ j])
qed

lemma random_choice_image: "{x. \<exists>r. random_choice ml r = Inr x} \<subseteq> set ml"
  by (auto simp: random_choice_def split: if_splits)

lemma randint_eq: "0 < n \<Longrightarrow> randint 0 (int n - 1) r = Inr (r mod n)"
  by (simp add: randint_def flip: zmod_int)

lemma randint_image: "{x. \<exists>r. randint 0 (int n - 1) r = Inr x} \<subseteq> {..<n}"
proof (cases "n = 0")
  case True
  then show ?thesis by (auto simp: randint_def)
next
  case False
  then show ?thesis by (auto simp: randint_eq)
qed

lemma randint_hits:
  assumes "fair rng" "x < n"
  shows "\<exists>j\<ge>i. randint 0 (int n - 1) (rng j) = Inr x"
proof -
  from assms obtain j where "j \<ge> i" "rng j mod n = x" unfolding fair_def by blast
  with assms(2) show ?thesis by (auto simp: randint_eq intro!: exI[of _ j])
qed

text \<open>The first loop: \<open>k\<close> draws from \<open>match\<close>.\<close>

lemma match_loop_total:
  assumes "fair rng" "finite match"
  shows "\<exists>i' S'. sample_until (random_choice (sorted_list_of_set match)) rng i
            (min y_pos (int (card match))) {} = Some (Inr (i', S'))"
proof (cases "match = {}")
  case True
  then show ?thesis by (subst sample_until.simps) simp
next
  case False
  let ?ml = "sorted_list_of_set match"
  have ne: "?ml \<noteq> []" and st: "set ?ml = match" using False assms(2) by auto
  show ?thesis
  proof (rule sample_until_total[where P = match])
    show "\<forall>x\<in>match. \<forall>i. \<exists>j\<ge>i. random_choice ?ml (rng j) = Inr x"
      using random_choice_hits[OF assms(1)] st by blast
    show "\<forall>r. \<exists>z. random_choice ?ml r = Inr z \<and> z \<in> match"
      using random_choice_range[OF ne] st by blast
    show "finite ({}::nat set)" by simp
    show "finite match" by fact
    show "min y_pos (int (card match)) \<le> int (card ({} \<union> match))" by simp
  qed
qed

lemma match_loop_sound:
  assumes "sample_until (random_choice (sorted_list_of_set match)) rng i
            (min y_pos (int (card match))) {} = Some (Inr (i', S'))" "finite match"
  shows "S' \<subseteq> match" "finite S'" "int (card S') = max 0 (min y_pos (int (card match)))" "i \<le> i'"
proof -
  note s = sample_until_sound[OF assms(1) finite.emptyI]
  show "S' \<subseteq> match" using s(4) random_choice_image[of "sorted_list_of_set match"] assms(2) by auto
  show "finite S'" by (rule s(2))
  show "i \<le> i'" by (rule s(3))
  show "int (card S') = max 0 (min y_pos (int (card match)))"
  proof (cases "int (card ({}::nat set)) < min y_pos (int (card match))")
    case True
    from s(5)[OF True] True show ?thesis by simp
  next
    case False
    from s(6)[OF False] False show ?thesis by (auto simp: min_def max_def split: if_splits)
  qed
qed

text \<open>The second loop: the fill from \<open>0 ..< s_tbl_sz\<close>.\<close>

lemma fill_loop_total:
  assumes "fair rng" "finite S" "y_param \<le> int s_tbl_sz"
  shows "\<exists>i' S'. sample_until (randint 0 (int s_tbl_sz - 1)) rng i y_param S = Some (Inr (i', S'))"
proof (cases "int (card S) < y_param")
  case False
  then show ?thesis by (subst sample_until.simps) simp
next
  case True
  then have pos: "0 < s_tbl_sz" using assms(3) by linarith
  show ?thesis
  proof (rule sample_until_total[where P = "{..<s_tbl_sz}"])
    show "\<forall>x\<in>{..<s_tbl_sz}. \<forall>i. \<exists>j\<ge>i. randint 0 (int s_tbl_sz - 1) (rng j) = Inr x"
      using randint_hits[OF assms(1)] by blast
    show "\<forall>r. \<exists>z. randint 0 (int s_tbl_sz - 1) r = Inr z \<and> z \<in> {..<s_tbl_sz}"
      using pos by (simp add: randint_eq)
    show "finite S" by fact
    show "finite {..<s_tbl_sz}" by simp
    have "card {..<s_tbl_sz} \<le> card (S \<union> {..<s_tbl_sz})"
      using assms(2) by (intro card_mono) auto
    then show "y_param \<le> int (card (S \<union> {..<s_tbl_sz}))" using assms(3) by simp
  qed
qed

lemma fill_loop_sound:
  assumes "sample_until (randint 0 (int s_tbl_sz - 1)) rng i y_param S = Some (Inr (i', S'))" "finite S"
  shows "S \<subseteq> S'" "finite S'" "S' - S \<subseteq> {..<s_tbl_sz}" "i \<le> i'"
    "int (card S) \<le> y_param \<Longrightarrow> int (card S') = y_param"
    "\<not> int (card S) < y_param \<Longrightarrow> S' = S"
proof -
  note s = sample_until_sound[OF assms]
  show "S \<subseteq> S'" "finite S'" "i \<le> i'" by (rule s)+
  show "S' - S \<subseteq> {..<s_tbl_sz}" using s(4) randint_image[of s_tbl_sz] by blast
  show "\<not> int (card S) < y_param \<Longrightarrow> S' = S" using s(6) by simp
  show "int (card S) \<le> y_param \<Longrightarrow> int (card S') = y_param"
    using s(5) s(6) by (cases "int (card S) < y_param") auto
qed

section \<open>The selection for one probed row\<close>

lemma probe_row_unfold:
  assumes "probe_row rng i idx y_pos y_param n toks = Some (Inr (i', smpl))"
  shows "\<exists>i1 s1. sample_until (random_choice (sorted_list_of_set (collect_match idx {} toks))) rng i
               (min y_pos (int (card (collect_match idx {} toks)))) {} = Some (Inr (i1, s1))
           \<and> sample_until (randint 0 (int n - 1)) rng i1 y_param s1 = Some (Inr (i', smpl))"
  using assms by (auto simp: probe_row_def Let_def split: option.splits sum.splits)

lemma probe_row_sound:
  assumes "probe_row rng i idx y_pos y_param n toks = Some (Inr (i', smpl))"
  shows "\<exists>picked. picked \<subseteq> collect_match idx {} toks
           \<and> int (card picked) = max 0 (min y_pos (int (card (collect_match idx {} toks))))
           \<and> picked \<subseteq> smpl \<and> smpl - picked \<subseteq> {..<n} \<and> finite smpl \<and> i \<le> i'
           \<and> (int (card picked) \<le> y_param \<longrightarrow> int (card smpl) = y_param)
           \<and> (\<not> int (card picked) < y_param \<longrightarrow> smpl = picked)"
proof -
  let ?m = "collect_match idx {} toks"
  from probe_row_unfold[OF assms] obtain i1 s1 where
    l1: "sample_until (random_choice (sorted_list_of_set ?m)) rng i (min y_pos (int (card ?m))) {}
           = Some (Inr (i1, s1))"
    and l2: "sample_until (randint 0 (int n - 1)) rng i1 y_param s1 = Some (Inr (i', smpl))"
    by blast
  have fin: "finite ?m" by (simp add: collect_match_finite)
  note a = match_loop_sound[OF l1 fin]
  note b = fill_loop_sound[OF l2 a(2)]
  show ?thesis
    using a b by (intro exI[of _ s1]) auto
qed

lemma probe_row_total:
  assumes "fair rng" "y_param \<le> int n"
  shows "\<exists>i' smpl. probe_row rng i idx y_pos y_param n toks = Some (Inr (i', smpl))"
proof -
  let ?m = "collect_match idx {} toks"
  have fin: "finite ?m" by (simp add: collect_match_finite)
  from match_loop_total[OF assms(1) fin] obtain i1 s1 where
    l1: "sample_until (random_choice (sorted_list_of_set ?m)) rng i (min y_pos (int (card ?m))) {}
           = Some (Inr (i1, s1))" by blast
  have f1: "finite s1" by (rule match_loop_sound(2)[OF l1 fin])
  from fill_loop_total[OF assms(1) f1 assms(2)] obtain i2 s2 where
    "sample_until (randint 0 (int n - 1)) rng i1 y_param s1 = Some (Inr (i2, s2))" by blast
  with l1 show ?thesis by (simp add: probe_row_def Let_def)
qed

lemma probe_row_below:
  assumes "probe_row rng i idx y_pos y_param n toks = Some (Inr (i', smpl))"
    and "collect_match idx {} toks \<subseteq> {..<n}"
  shows "smpl \<subseteq> {..<n}"
  using probe_row_sound[OF assms(1)] assms(2) by blast



text \<open>
  C8. Both rejection loops end on a fair draw stream: the draws from \<open>match\<close> because
  \<open>k = min y_pos |match|\<close> is at most \<open>|match|\<close>, and the fill, from whatever the first
  loop selected, because \<open>0 ..< s_tbl_sz\<close> has at least \<open>y_param\<close> values when
  \<open>y_param \<le> s_tbl_sz\<close>.
\<close>

theorem rejection_loops_terminate:
  assumes "fair rng"
  shows "(\<exists>i1 s1. sample_until (random_choice (sorted_list_of_set (collect_match s_inv_index {} str_val)))
                     rng i (min y_pos (int (card (collect_match s_inv_index {} str_val)))) {}
                   = Some (Inr (i1, s1)))
       \<and> (\<forall>i1 s1. finite s1 \<longrightarrow> y_param \<le> int s_tbl_sz \<longrightarrow>
            (\<exists>i2 s2. sample_until (randint 0 (int s_tbl_sz - 1)) rng i1 y_param s1 = Some (Inr (i2, s2))))
       \<and> (y_param \<le> int s_tbl_sz \<longrightarrow>
            (\<exists>i2 s2. probe_row rng i s_inv_index y_pos y_param s_tbl_sz str_val = Some (Inr (i2, s2))))"
proof (intro conjI allI impI)
  show "\<exists>i1 s1. sample_until (random_choice (sorted_list_of_set (collect_match s_inv_index {} str_val)))
                     rng i (min y_pos (int (card (collect_match s_inv_index {} str_val)))) {}
                   = Some (Inr (i1, s1))"
    by (rule match_loop_total[OF assms]) (simp add: collect_match_finite)
next
  fix i1 and s1 :: "nat set"
  assume "finite s1" "y_param \<le> int s_tbl_sz"
  then show "\<exists>i2 s2. sample_until (randint 0 (int s_tbl_sz - 1)) rng i1 y_param s1 = Some (Inr (i2, s2))"
    by (rule fill_loop_total[OF assms])
next
  assume "y_param \<le> int s_tbl_sz"
  then show "\<exists>i2 s2. probe_row rng i s_inv_index y_pos y_param s_tbl_sz str_val = Some (Inr (i2, s2))"
    by (rule probe_row_total[OF assms])
qed

theorem rejection_loops_terminate_witness:
  "(\<exists>i1 s1. sample_until (random_choice (sorted_list_of_set (collect_match [''pear'' \<mapsto> [1, 4]] {} [''pear''])))
                     (\<lambda>i. i) 0 (min 1 (int (card (collect_match [''pear'' \<mapsto> [1, 4]] {} [''pear''])))) {}
                   = Some (Inr (i1, s1)))
   \<and> (\<exists>i2 s2. sample_until (randint 0 (int 5 - 1)) (\<lambda>i. i) 1 2 {4} = Some (Inr (i2, s2)))
   \<and> (\<exists>i2 s2. probe_row (\<lambda>i. i) 0 [''pear'' \<mapsto> [1, 4]] 1 2 5 [''pear''] = Some (Inr (i2, s2)))"
proof -
  have f: "finite {4::nat}" and le: "(2::int) \<le> int 5" by simp_all
  note t = rejection_loops_terminate[OF fair_id, of "[''pear'' \<mapsto> [1, 4]]" "[''pear'']" 0 1 2 5]
  have a: "\<exists>i1 s1. sample_until (random_choice (sorted_list_of_set (collect_match [''pear'' \<mapsto> [1, 4]] {} [''pear''])))
                     (\<lambda>i. i) 0 (min 1 (int (card (collect_match [''pear'' \<mapsto> [1, 4]] {} [''pear''])))) {}
                   = Some (Inr (i1, s1))"
    by (rule t[THEN conjunct1])
  have b: "\<exists>i2 s2. sample_until (randint 0 (int 5 - 1)) (\<lambda>i. i) 1 2 {4} = Some (Inr (i2, s2))"
    by (rule t[THEN conjunct2, THEN conjunct1, rule_format, OF f le])
  have c: "\<exists>i2 s2. probe_row (\<lambda>i. i) 0 [''pear'' \<mapsto> [1, 4]] 1 2 5 [''pear''] = Some (Inr (i2, s2))"
    by (rule t[THEN conjunct2, THEN conjunct2, rule_format, OF le])
  show ?thesis using a b c by (intro conjI)
qed

section \<open>Tokenizing and indexing a rectangular frame\<close>

lemma concat_cols_total:
  "\<forall>i\<in>set cols. i < length row \<Longrightarrow> \<exists>s. concat_cols acc cols row = Inr s"
  by (induction cols arbitrary: acc) auto

lemma tokenize_total:
  "\<forall>i\<in>set cols. i < length row \<Longrightarrow> \<exists>toks. tokenize py stop_words cols row = Inr toks"
  using concat_cols_total[of cols row "[]"] by (auto simp: tokenize_def)

lemma get_str_cols_list_range:
  "get_str_cols_list t = Inr cols \<Longrightarrow> \<forall>i\<in>set cols. i < length (columns t)"
  by (auto simp: get_str_cols_list_def split: if_splits)

lemma get_str_cols_list_total:
  "0 < len t \<Longrightarrow> \<exists>cols. get_str_cols_list t = Inr cols"
  by (simp add: get_str_cols_list_def)

lemma index_rows_total:
  assumes "\<forall>row\<in>set rs. \<forall>i\<in>set cols. i < length row"
  shows "\<exists>idx'. index_rows py stop_words cols idx pos rs = Inr idx'"
  using assms
proof (induction rs arbitrary: idx pos)
  case Nil
  then show ?case by simp
next
  case (Cons row rs)
  then obtain toks where "tokenize py stop_words cols row = Inr toks"
    using tokenize_total[where cols = cols and row = row and stop_words = stop_words and py = py] by auto
  moreover obtain idx' where
    "index_rows py stop_words cols (add_postings idx pos toks) (pos + 1) rs = Inr idx'"
    using Cons.IH[of "add_postings idx pos toks" "pos + 1"] Cons.prems by auto
  ultimately show ?case by simp
qed

lemma rectangular_rows:
  assumes "rectangular t" "get_str_cols_list t = Inr cols"
  shows "\<forall>row\<in>set (itertuples t). \<forall>i\<in>set cols. i < length row"
  using assms get_str_cols_list_range[OF assms(2)]
  by (auto simp: rectangular_def list_all_iff)

lemma inv_index_total:
  assumes "rectangular t" "0 < len t"
  shows "\<exists>idx. inv_index py (Some stop_lines) t = Inr idx"
proof -
  from get_str_cols_list_total[OF assms(2)] obtain cols where c: "get_str_cols_list t = Inr cols"
    by blast
  from index_rows_total[OF rectangular_rows[OF assms(1) c]] obtain idx where
    "index_rows py (set (map (\<lambda>line. Bytes (rstrip line)) stop_lines)) cols Map.empty 0 (itertuples t) = Inr idx"
    by blast
  then show ?thesis using c by (simp add: inv_index_def get_stop_words_def)
qed

section \<open>Probing all rows\<close>

lemma probe_rows_below:
  assumes "probe_rows py stop_words cols rng i idx y_pos y_param n h rs = Some (Inr (i', h'))"
    and "h \<subseteq> {..<n}"
    and "\<And>tok ids. idx tok = Some ids \<Longrightarrow> \<forall>p\<in>set ids. p < n"
  shows "h' \<subseteq> {..<n}"
  using assms(1,2)
proof (induction rs arbitrary: i h)
  case Nil
  then show ?case by simp
next
  case (Cons row rs)
  from Cons.prems(1) obtain toks i1 smpl where
    t: "tokenize py stop_words cols row = Inr toks"
    and p: "probe_row rng i idx y_pos y_param n toks = Some (Inr (i1, smpl))"
    and r: "probe_rows py stop_words cols rng i1 idx y_pos y_param n (set_update h smpl) rs
              = Some (Inr (i', h'))"
    by (auto split: sum.splits option.splits)
  have "smpl \<subseteq> {..<n}"
    by (rule probe_row_below[OF p collect_match_below]) (rule assms(3))
  then have "set_update h smpl \<subseteq> {..<n}" using Cons.prems(2) by (simp add: set_update_def)
  from Cons.IH[OF r this] show ?case .
qed

lemma probe_rows_total:
  assumes "fair rng" "y_param \<le> int n"
    and "\<forall>row\<in>set rs. \<forall>i\<in>set cols. i < length row"
  shows "\<exists>i' h'. probe_rows py stop_words cols rng i idx y_pos y_param n h rs = Some (Inr (i', h'))"
  using assms(3)
proof (induction rs arbitrary: i h)
  case Nil
  then show ?case by simp
next
  case (Cons row rs)
  then obtain toks where t: "tokenize py stop_words cols row = Inr toks"
    using tokenize_total[where cols = cols and row = row and stop_words = stop_words and py = py] by auto
  from probe_row_total[OF assms(1,2)] obtain i1 smpl where
    p: "probe_row rng i idx y_pos y_param n toks = Some (Inr (i1, smpl))" by blast
  from Cons.IH[of i1 "set_update h smpl"] Cons.prems obtain i' h' where
    "probe_rows py stop_words cols rng i1 idx y_pos y_param n (set_update h smpl) rs
       = Some (Inr (i', h'))" by auto
  with t p show ?case by simp
qed

lemma probe_index_below:
  assumes "probe_index py stop_words_file rng i tb y_param n idx = Some (Inr (i', h))"
    and "\<And>tok ids. idx tok = Some ids \<Longrightarrow> \<forall>p\<in>set ids. p < n"
  shows "h \<subseteq> {..<n}"
proof -
  from assms(1) obtain sw cols where
    "probe_rows py sw cols rng i idx (y_param div 2) y_param n {} (itertuples tb) = Some (Inr (i', h))"
    by (auto simp: probe_index_def Let_def split: sum.splits)
  from probe_rows_below[OF this _ assms(2)] show ?thesis by simp
qed

lemma probe_index_total:
  assumes "fair rng" "y_param \<le> int n" "rectangular tb" "0 < len tb"
  shows "\<exists>i' h. probe_index py (Some stop_lines) rng i tb y_param n idx = Some (Inr (i', h))"
proof -
  from get_str_cols_list_total[OF assms(4)] obtain cols where c: "get_str_cols_list tb = Inr cols"
    by blast
  from probe_rows_total[OF assms(1,2) rectangular_rows[OF assms(3) c]] obtain i' h where
    "probe_rows py (set (map (\<lambda>line. Bytes (rstrip line)) stop_lines)) cols rng i idx (y_param div 2) y_param n {}
       (itertuples tb) = Some (Inr (i', h))" by blast
  then show ?thesis using c by (simp add: probe_index_def get_stop_words_def Let_def)
qed

section \<open>Claims on the index and the candidate pool\<close>

lemma example_a_ok: "rectangular example_a \<and> 0 < len example_a"
  by (simp add: rectangular_def example_a_def itertuples_def len_def)

lemma example_b_ok: "rectangular example_b \<and> 0 < len example_b"
  by (simp add: rectangular_def example_b_def itertuples_def len_def)

text \<open>
  C6. The stop words are to be removed from the token set of every row, before
  indexing and before probing. On Python 3 they are not: the file is read in binary
  mode, so the stop word set holds byte strings, the tokens are text strings, and the set
  difference removes nothing. With the stop words \<open>the\<close> and \<open>of\<close> in the file, both are
  tokens of the rows of \<open>example_a\<close> and keys of its index.
\<close>

theorem stop_words_are_indexed_on_python3:
  "get_stop_words example_stop_words_file = Inr {Bytes ''the'', Bytes ''of''}
   \<and> tokenize Python3 {Bytes ''the'', Bytes ''of''} [0] [Str ''The Pear'', Num 5]
       = Inr [''the'', ''pear'']
   \<and> (case inv_index Python3 example_stop_words_file example_a of
         Inr idx \<Rightarrow> idx ''the'' = Some [1] \<and> idx ''of'' = Some [2]
       | Inl e \<Rightarrow> False)
   \<and> tokenize Python2 {Bytes ''the'', Bytes ''of''} [0] [Str ''The Pear'', Num 5] = Inr [''pear'']"
proof (intro conjI)
  show "get_stop_words example_stop_words_file = Inr {Bytes ''the'', Bytes ''of''}"
    by (simp add: get_stop_words_def example_stop_words_file_def rstrip_def is_space_def)
  show "tokenize Python3 {Bytes ''the'', Bytes ''of''} [0] [Str ''The Pear'', Num 5]
       = Inr [''the'', ''pear'']"
    by code_simp
  show "case inv_index Python3 example_stop_words_file example_a of
         Inr idx \<Rightarrow> idx ''the'' = Some [1] \<and> idx ''of'' = Some [2]
       | Inl e \<Rightarrow> False"
    by code_simp
  show "tokenize Python2 {Bytes ''the'', Bytes ''of''} [0] [Str ''The Pear'', Num 5] = Inr [''pear'']"
    by code_simp
qed

section \<open>Which selections the draws can give\<close>





section \<open>Claims on positions\<close>

text \<open>
  C9. Every position in a posting list of the index built over \<open>table_a\<close> is below
  \<open>len table_a\<close>, and a posting list holds a position at most once. Every position that
  probing with that index and \<open>s_tbl_sz = len table_a\<close> accumulates is below \<open>len table_a\<close>.
  The accumulator is a set: updating it a second time with the same selection changes
  nothing.
\<close>

theorem positions_in_range:
  assumes "inv_index py stop_words_file table_a = Inr s_inv_index"
  shows "(\<forall>token ids. s_inv_index token = Some ids \<longrightarrow>
            distinct ids \<and> (\<forall>p\<in>set ids. p < len table_a))
       \<and> (\<forall>rng i table_b y_param i' h_table.
            probe_index py stop_words_file rng i table_b y_param (len table_a) s_inv_index
              = Some (Inr (i', h_table)) \<longrightarrow> (\<forall>p\<in>h_table. p < len table_a))
       \<and> (\<forall>h_table smpl_pos_neg.
            set_update (set_update h_table smpl_pos_neg) smpl_pos_neg = set_update h_table smpl_pos_neg)"
proof (intro conjI allI impI)
  fix token ids
  assume "s_inv_index token = Some ids"
  from inv_index_below[OF assms this]
  show "distinct ids" and "\<forall>p\<in>set ids. p < len table_a" by simp_all
next
  fix rng i table_b y_param i' h_table
  assume p: "probe_index py stop_words_file rng i table_b y_param (len table_a) s_inv_index
              = Some (Inr (i', h_table))"
  have "h_table \<subseteq> {..<len table_a}"
    by (rule probe_index_below[OF p]) (use inv_index_below[OF assms] in blast)
  then show "\<forall>p\<in>h_table. p < len table_a" by blast
next
  fix h_table smpl_pos_neg :: "nat set"
  show "set_update (set_update h_table smpl_pos_neg) smpl_pos_neg = set_update h_table smpl_pos_neg"
    by (auto simp: set_update_def)
qed

theorem positions_in_range_witness:
  "\<exists>idx i' h_table. inv_index Python3 example_stop_words_file example_a = Inr idx
      \<and> idx ''pear'' = Some [1, 2]
      \<and> probe_index Python3 example_stop_words_file (\<lambda>i. i) 0 example_b 2 (len example_a) idx
            = Some (Inr (i', h_table))
      \<and> h_table \<subseteq> {..<3}
      \<and> set_update (set_update {0} {0, 2}) {0, 2} = set_update {0} {0, 2}"
proof -
  obtain idx where idx: "inv_index Python3 example_stop_words_file example_a = Inr idx"
    using inv_index_total example_a_ok unfolding example_stop_words_file_def by blast
  note t = positions_in_range[OF idx]
  have la: "len example_a = 3" by (simp add: len_def itertuples_def example_a_def)
  have "(2::int) \<le> int (len example_a)" by (simp add: la)
  from probe_index_total[OF fair_id this, where tb = example_b and py = Python3] example_b_ok obtain i' h_table where
    p: "probe_index Python3 example_stop_words_file (\<lambda>i. i) 0 example_b 2 (len example_a) idx
          = Some (Inr (i', h_table))"
    unfolding example_stop_words_file_def by blast
  have "\<And>q. q \<in> h_table \<Longrightarrow> q < len example_a"
    by (rule t[THEN conjunct2, THEN conjunct1, rule_format, OF p])
  then have h: "h_table \<subseteq> {..<3}" unfolding la by blast
  have "(case inv_index Python3 example_stop_words_file example_a of
           Inr idx' \<Rightarrow> idx' ''pear'' = Some [1, 2] | Inl e \<Rightarrow> False)"
    by code_simp
  then have pear: "idx ''pear'' = Some [1, 2]" using idx by simp
  have u: "set_update (set_update {0} {0, 2}) {0, 2} = set_update {0::nat} {0, 2}"
    by (rule t[THEN conjunct2, THEN conjunct2, rule_format])
  show ?thesis using idx pear p h u by (intro exI[of _ idx] exI[of _ i'] exI[of _ h_table] conjI)
qed

section \<open>Sampling without replacement\<close>

lemma draw_without_replacement_props:
  assumes "distinct pool" "draw_without_replacement rng i pool m = (i', xs)"
  shows "distinct xs \<and> set xs \<subseteq> set pool \<and> length xs = min m (length pool)"
  using assms
proof (induction m arbitrary: i pool i' xs)
  case 0
  then show ?case by simp
next
  case (Suc m)
  show ?case
  proof (cases "pool = []")
    case True
    with Suc.prems show ?thesis by simp
  next
    case False
    let ?x = "pool ! (rng i mod length pool)"
    obtain i2 ys where rec: "draw_without_replacement rng (Suc i) (removeAll ?x pool) m = (i2, ys)"
      by (cases "draw_without_replacement rng (Suc i) (removeAll ?x pool) m") auto
    with Suc.prems False have xs: "xs = ?x # ys" by (simp add: Let_def)
    have xin: "?x \<in> set pool" using False by simp
    have d: "distinct (removeAll ?x pool)" using Suc.prems(1) by (simp add: distinct_removeAll)
    from Suc.IH[OF d rec] have ih: "distinct ys" "set ys \<subseteq> set (removeAll ?x pool)"
      "length ys = min m (length (removeAll ?x pool))" by simp_all
    have len: "length (removeAll ?x pool) = length pool - 1"
      using Suc.prems(1) xin by (simp add: distinct_remove1_removeAll[symmetric] length_remove1)
    have nx: "?x \<notin> set ys" using ih(2) by auto
    obtain n where n: "length pool = Suc n" using False by (cases pool) auto
    have "length xs = min (Suc m) (length pool)"
      using ih(3) xs len n by simp
    moreover have "distinct xs" using nx ih(1) xs by simp
    moreover have "set xs \<subseteq> set pool" using ih(2) xs xin by auto
    ultimately show ?thesis by simp
  qed
qed

lemma np_random_choice_props:
  assumes "np_random_choice rng i n sz = Inr (i', xs)"
  shows "distinct xs \<and> set xs \<subseteq> {..<n} \<and> int (length xs) = sz \<and> 0 < n"
proof -
  from assms have c: "n \<noteq> 0" "0 \<le> sz" "sz \<le> int n"
    and d: "draw_without_replacement rng i [0 ..< n] (nat sz) = (i', xs)"
    by (auto simp: np_random_choice_def split: if_splits)
  from draw_without_replacement_props[OF _ d] c show ?thesis by auto
qed

lemma np_random_choice_total:
  assumes "0 < n" "0 \<le> sz" "sz \<le> int n"
  shows "\<exists>i' xs. np_random_choice rng i n sz = Inr (i', xs)"
  using assms by (cases "draw_without_replacement rng i [0 ..< n] (nat sz)")
    (auto simp: np_random_choice_def)

lemma distinct_all_positions:
  assumes "distinct xs" "set xs \<subseteq> {..<n}" "length xs = n"
  shows "set xs = {..<n}"
proof -
  have "card (set xs) = n" using assms(1,3) by (simp add: distinct_card)
  then show ?thesis using assms(2) by (simp add: card_subset_eq)
qed

section \<open>Row selection\<close>

lemma iloc_total:
  "set ps \<subseteq> {..<len t} \<Longrightarrow> \<exists>t'. iloc t ps = Inr t'"
  by (auto simp: iloc_def list_all_iff)

lemma iloc_range:
  "iloc t ps = Inr t' \<Longrightarrow> set ps \<subseteq> {..<len t}"
  by (auto simp: iloc_def list_all_iff split: if_splits)

lemma iloc_rows:
  assumes "iloc t ps = Inr t'"
  shows "columns t' = columns t \<and> itertuples t' = map (\<lambda>p. itertuples t ! p) ps"
proof -
  from assms have r: "\<forall>p\<in>set ps. p < len t"
    and t': "t' = t\<lparr>body := (case body t of
                    IntIndexed rs \<Rightarrow> IntIndexed (map (\<lambda>p. rs ! p) ps)
                  | ObjIndexed rs \<Rightarrow> ObjIndexed (map (\<lambda>p. rs ! p) ps))\<rparr>"
    by (auto simp: iloc_def list_all_iff split: if_splits)
  show ?thesis
  proof (cases "body t")
    case (IntIndexed rs)
    then show ?thesis using r t' by (auto simp: itertuples_def len_def)
  next
    case (ObjIndexed rs)
    then show ?thesis using r t' by (auto simp: itertuples_def len_def)
  qed
qed

lemma iloc_rectangular:
  assumes "iloc t ps = Inr t'" "rectangular t"
  shows "rectangular t'"
  using iloc_rows[OF assms(1)] iloc_range[OF assms(1)] assms(2)
  by (auto simp: rectangular_def list_all_iff len_def)

lemma iloc_len: "iloc t ps = Inr t' \<Longrightarrow> len t' = length ps"
  using iloc_rows[of t ps t'] by (simp add: len_def)

lemma ix_total:
  "set keys \<subseteq> {..<len t} \<Longrightarrow> \<exists>t'. ix t keys = Inr t'"
  using iloc_total[of keys t] by (auto simp: ix_def split: axis.splits)

lemma ix_rectangular:
  assumes "ix t keys = Inr t'" "rectangular t"
  shows "rectangular t'"
proof (cases "body t")
  case (ObjIndexed rs)
  then have "iloc t keys = Inr t'" using assms(1) by (simp add: ix_def)
  from iloc_rectangular[OF this assms(2)] show ?thesis .
next
  case (IntIndexed rs)
  then have t': "t' = t\<lparr>body := IntIndexed (concat (map (\<lambda>k.
                 (case filter (\<lambda>lr. fst lr = int k) rs of
                    [] \<Rightarrow> [(int k, replicate (length (columns t)) NaN)]
                  | hit # hits \<Rightarrow> hit # hits)) keys))\<rparr>"
    using assms(1) by (simp add: ix_def)
  have rs: "\<forall>lr\<in>set rs. length (snd lr) = length (columns t)"
    using assms(2) IntIndexed by (auto simp: rectangular_def itertuples_def list_all_iff)
  have "\<And>k lr. lr \<in> set (case filter (\<lambda>lr. fst lr = int k) rs of
                    [] \<Rightarrow> [(int k, replicate (length (columns t)) NaN)]
                  | hit # hits \<Rightarrow> hit # hits) \<Longrightarrow> length (snd lr) = length (columns t)"
  proof -
    fix k lr
    assume a: "lr \<in> set (case filter (\<lambda>lr. fst lr = int k) rs of
                    [] \<Rightarrow> [(int k, replicate (length (columns t)) NaN)]
                  | hit # hits \<Rightarrow> hit # hits)"
    show "length (snd lr) = length (columns t)"
    proof (cases "filter (\<lambda>lr. fst lr = int k) rs")
      case Nil
      with a show ?thesis by simp
    next
      case (Cons hit hits)
      with a have "lr \<in> set (filter (\<lambda>lr. fst lr = int k) rs)" by simp
      then show ?thesis using rs by simp
    qed
  qed
  then show ?thesis unfolding t' by (auto simp: rectangular_def itertuples_def list_all_iff)
qed

lemma ix_nonempty:
  assumes "ix t keys = Inr t'" "keys \<noteq> []"
  shows "0 < len t'"
proof (cases "body t")
  case (ObjIndexed rs)
  then have "iloc t keys = Inr t'" using assms(1) by (simp add: ix_def)
  from iloc_len[OF this] assms(2) show ?thesis by simp
next
  case (IntIndexed rs)
  obtain k ks where keys: "keys = k # ks" using assms(2) by (cases keys) auto
  have ne: "(case filter (\<lambda>lr. fst lr = int k) rs of
                    [] \<Rightarrow> [(int k, replicate (length (columns t)) NaN)]
                  | hit # hits \<Rightarrow> hit # hits) \<noteq> []"
    by (cases "filter (\<lambda>lr. fst lr = int k) rs") auto
  show ?thesis using assms(1) IntIndexed keys ne
    by (auto simp: ix_def len_def itertuples_def)
qed

section \<open>The catalog\<close>

lemma map_of_dict_set: "map_of (dict_set k v d) = (map_of d)(k \<mapsto> v)"
  by (induction d) (auto simp: fun_eq_iff)

lemma catalog_set_property_frame:
  "frames (catalog_set_property w df name v) = frames w
   \<and> warnings (catalog_set_property w df name v) = warnings w
   \<and> map_of (catalog (catalog_set_property w df name v)) df \<noteq> None
   \<and> (\<forall>d. d \<noteq> df \<longrightarrow> map_of (catalog (catalog_set_property w df name v)) d = map_of (catalog w) d)"
  by (simp add: catalog_set_property_def map_of_dict_set)

lemma fold_set_property_frame:
  "frames (fold (\<lambda>kv w'. catalog_set_property w' df (fst kv) (snd kv)) ps w) = frames w
   \<and> warnings (fold (\<lambda>kv w'. catalog_set_property w' df (fst kv) (snd kv)) ps w) = warnings w
   \<and> (map_of (catalog w) df \<noteq> None \<longrightarrow>
        map_of (catalog (fold (\<lambda>kv w'. catalog_set_property w' df (fst kv) (snd kv)) ps w)) df \<noteq> None)
   \<and> (\<forall>d. d \<noteq> df \<longrightarrow>
        map_of (catalog (fold (\<lambda>kv w'. catalog_set_property w' df (fst kv) (snd kv)) ps w)) d
          = map_of (catalog w) d)"
proof (induction ps arbitrary: w)
  case Nil
  then show ?case by simp
next
  case (Cons kv ps)
  note s = catalog_set_property_frame[where w = w and df = df and name = "fst kv" and v = "snd kv"]
  note ih = Cons.IH[where w = "catalog_set_property w df (fst kv) (snd kv)"]
  show ?case using s ih by simp
qed

lemma set_properties_replace:
  assumes "is_DataFrame w tar"
  shows "\<exists>w'. set_properties w tar ps True = Inr (True, w')
           \<and> frames w' = frames w \<and> warnings w' = warnings w
           \<and> map_of (catalog w') (id_of tar) \<noteq> None
           \<and> (\<forall>d. d \<noteq> id_of tar \<longrightarrow> map_of (catalog w') d = map_of (catalog w) d)"
proof -
  let ?w1 = "if \<not> is_df_info_present_in_catalog w (id_of tar)
             then catalog_init_properties w (id_of tar) else w"
  have w1: "frames ?w1 = frames w \<and> warnings ?w1 = warnings w
            \<and> map_of (catalog ?w1) (id_of tar) \<noteq> None
            \<and> (\<forall>d. d \<noteq> id_of tar \<longrightarrow> map_of (catalog ?w1) d = map_of (catalog w) d)"
    by (simp add: catalog_init_properties_def is_df_info_present_in_catalog_def map_of_dict_set)
  note f = fold_set_property_frame[where w = ?w1 and df = "id_of tar" and ps = ps]
  have "set_properties w tar ps True
          = Inr (True, fold (\<lambda>kv w'. catalog_set_property w' (id_of tar) (fst kv) (snd kv)) ps ?w1)"
    using assms by (simp add: set_properties_def Let_def)
  then show ?thesis using f w1 by auto
qed

lemma copy_properties_result:
  assumes "copy_properties w src tar True = Inr (ok, w')"
  shows "is_DataFrame w src \<and> is_DataFrame w tar \<and> map_of (catalog w) (id_of src) \<noteq> None
       \<and> frames w' = frames w \<and> warnings w' = warnings w
       \<and> map_of (catalog w') (id_of tar) \<noteq> None
       \<and> (\<forall>d. d \<noteq> id_of tar \<longrightarrow> map_of (catalog w') d = map_of (catalog w) d)"
proof -
  from assms have s: "is_DataFrame w src" and t: "is_DataFrame w tar"
    and p: "map_of (catalog w) (id_of src) \<noteq> None"
    by (auto simp: copy_properties_def is_df_info_present_in_catalog_def split: if_splits)
  then obtain ps where ps: "map_of (catalog w) (id_of src) = Some ps" by auto
  have "copy_properties w src tar True = set_properties w tar ps True"
    using s t ps
    by (simp add: copy_properties_def is_df_info_present_in_catalog_def catalog_get_all_properties_def)
  with assms set_properties_replace[OF t, of ps] s t p show ?thesis by auto
qed

lemma copy_properties_missing:
  "map_of (catalog w) (id_of src) = None \<Longrightarrow> is_DataFrame w src \<Longrightarrow> is_DataFrame w tar \<Longrightarrow>
   copy_properties w src tar upd = Inl KeyError"
  by (simp add: copy_properties_def is_df_info_present_in_catalog_def)

lemma copy_properties_total:
  assumes "is_DataFrame w src" "is_DataFrame w tar" "map_of (catalog w) (id_of src) \<noteq> None"
  shows "\<exists>w'. copy_properties w src tar True = Inr (True, w')"
proof -
  from assms(3) obtain ps where ps: "map_of (catalog w) (id_of src) = Some ps" by auto
  have "copy_properties w src tar True = set_properties w tar ps True"
    using assms(1,2) ps
    by (simp add: copy_properties_def is_df_info_present_in_catalog_def catalog_get_all_properties_def)
  with set_properties_replace[OF assms(2), of ps] show ?thesis by auto
qed

section \<open>The steps of a call of the down sampler\<close>

lemma down_sample_success:
  assumes "down_sample py f rng w ta tb b_size y = Some (Inr ((l, r), w'))"
  shows "\<exists>idx i1 idxs bp i2 h lf rf ok_a w4 ok_b.
      is_DataFrame w ta \<and> is_DataFrame w tb
    \<and> 0 < len (frames w ! id_of ta) \<and> 0 < len (frames w ! id_of tb) \<and> b_size \<noteq> 0 \<and> y \<noteq> 0
    \<and> inv_index py f (frames w ! id_of ta) = Inr idx
    \<and> np_random_choice rng 0 (len (frames w ! id_of tb))
          (min b_size (int (len (frames w ! id_of tb)))) = Inr (i1, idxs)
    \<and> ix (frames w ! id_of tb) idxs = Inr bp
    \<and> probe_index py f rng i1 bp y (len (frames w ! id_of ta)) idx = Some (Inr (i2, h))
    \<and> iloc (frames w ! id_of ta) (sorted_list_of_set h) = Inr lf
    \<and> iloc (frames w ! id_of tb) idxs = Inr rf
    \<and> l = length (frames w) \<and> r = Suc (length (frames w))
    \<and> copy_properties
          (w\<lparr>warnings := warnings w @
               (if int (len (frames w ! id_of tb)) < b_size
                then [''Size of table B is less than b_size parameter - using entire table B'']
                else []),
             frames := frames w @ [lf, rf]\<rparr>) ta (DataFrame l) True = Inr (ok_a, w4)
    \<and> copy_properties w4 tb (DataFrame r) True = Inr (ok_b, w')"
  using assms unfolding down_sample_def Let_def new_frame_def
  by (simp split: if_splits sum.splits option.splits prod.splits) auto

lemma sampling_steps_total:
  assumes "fair rng" "rectangular a" "rectangular b" "0 < len a" "0 < len b"
    and "0 < b_size" "0 < y" "y \<le> int (len a)"
  shows "\<exists>idx i1 idxs bp i2 h lf rf.
      inv_index py (Some stop_lines) a = Inr idx
    \<and> np_random_choice rng 0 (len b) (min b_size (int (len b))) = Inr (i1, idxs)
    \<and> ix b idxs = Inr bp
    \<and> probe_index py (Some stop_lines) rng i1 bp y (len a) idx = Some (Inr (i2, h))
    \<and> iloc a (sorted_list_of_set h) = Inr lf
    \<and> iloc b idxs = Inr rf"
proof -
  from inv_index_total[OF assms(2,4)] obtain idx where
    idx: "inv_index py (Some stop_lines) a = Inr idx" by blast
  have sz: "0 \<le> min b_size (int (len b))" "min b_size (int (len b)) \<le> int (len b)"
    using assms(6) by simp_all
  from np_random_choice_total[OF assms(5) sz] obtain i1 idxs where
    ch: "np_random_choice rng 0 (len b) (min b_size (int (len b))) = Inr (i1, idxs)" by blast
  note cp = np_random_choice_props[OF ch]
  have "0 < min b_size (int (len b))" using assms(5,6) by simp
  then have ne: "idxs \<noteq> []" using cp by auto
  have rg: "set idxs \<subseteq> {..<len b}" using cp by simp
  from ix_total[OF rg] obtain bp where bp: "ix b idxs = Inr bp" by blast
  note rb = ix_rectangular[OF bp assms(3)]
  note nb = ix_nonempty[OF bp ne]
  from probe_index_total[OF assms(1,8) rb nb] obtain i2 h where
    pr: "probe_index py (Some stop_lines) rng i1 bp y (len a) idx = Some (Inr (i2, h))" by blast
  have hb: "h \<subseteq> {..<len a}"
    by (rule probe_index_below[OF pr]) (use inv_index_below[OF idx] in blast)
  then have "finite h" by (rule finite_subset) simp
  then have "set (sorted_list_of_set h) \<subseteq> {..<len a}" using hb by simp
  from iloc_total[OF this] obtain lf where lf: "iloc a (sorted_list_of_set h) = Inr lf" by blast
  from iloc_total[OF rg] obtain rf where rf: "iloc b idxs = Inr rf" by blast
  show ?thesis using idx ch bp pr lf rf by blast
qed

lemma is_DataFrame_mono:
  "is_DataFrame w obj \<Longrightarrow> length (frames w) \<le> length (frames w2) \<Longrightarrow> is_DataFrame w2 obj"
  by (auto simp: is_DataFrame_def split: pyobj.splits)

lemma is_DataFrame_id: "is_DataFrame w obj \<Longrightarrow> id_of obj < length (frames w)"
  by (auto simp: is_DataFrame_def id_of_def split: pyobj.splits)

text \<open>Once the sampling steps are known, a call is its two metadata copies.\<close>

lemma down_sample_copy_a:
  assumes "is_DataFrame w ta" "is_DataFrame w tb"
    and "0 < len (frames w ! id_of ta)" "0 < len (frames w ! id_of tb)" "0 < b_size" "0 < y"
    and "inv_index py f (frames w ! id_of ta) = Inr idx"
    and "np_random_choice rng 0 (len (frames w ! id_of tb))
          (min b_size (int (len (frames w ! id_of tb)))) = Inr (i1, idxs)"
    and "ix (frames w ! id_of tb) idxs = Inr bp"
    and "probe_index py f rng i1 bp y (len (frames w ! id_of ta)) idx = Some (Inr (i2, h))"
    and "iloc (frames w ! id_of ta) (sorted_list_of_set h) = Inr lf"
    and "iloc (frames w ! id_of tb) idxs = Inr rf"
    and "copy_properties
          (w\<lparr>warnings := warnings w @
               (if int (len (frames w ! id_of tb)) < b_size
                then [''Size of table B is less than b_size parameter - using entire table B'']
                else []),
             frames := frames w @ [lf, rf]\<rparr>) ta (DataFrame (length (frames w))) True = Inl e"
  shows "down_sample py f rng w ta tb b_size y = Some (Inl e)"
proof (cases "int (len (frames w ! id_of tb)) < b_size")
  case True
  with assms(13) have "copy_properties
          (w\<lparr>warnings := warnings w @
               [''Size of table B is less than b_size parameter - using entire table B''],
             frames := frames w @ [lf, rf]\<rparr>) ta (DataFrame (length (frames w))) True = Inl e"
    by simp
  then show ?thesis using assms(1-12) True
    by (simp add: down_sample_def Let_def new_frame_def)
next
  case False
  with assms(13) have "copy_properties (w\<lparr>frames := frames w @ [lf, rf]\<rparr>) ta
      (DataFrame (length (frames w))) True = Inl e" by simp
  then show ?thesis using assms(1-12) False
    by (simp add: down_sample_def Let_def new_frame_def)
qed

lemma down_sample_copy_b:
  assumes "is_DataFrame w ta" "is_DataFrame w tb"
    and "0 < len (frames w ! id_of ta)" "0 < len (frames w ! id_of tb)" "0 < b_size" "0 < y"
    and "inv_index py f (frames w ! id_of ta) = Inr idx"
    and "np_random_choice rng 0 (len (frames w ! id_of tb))
          (min b_size (int (len (frames w ! id_of tb)))) = Inr (i1, idxs)"
    and "ix (frames w ! id_of tb) idxs = Inr bp"
    and "probe_index py f rng i1 bp y (len (frames w ! id_of ta)) idx = Some (Inr (i2, h))"
    and "iloc (frames w ! id_of ta) (sorted_list_of_set h) = Inr lf"
    and "iloc (frames w ! id_of tb) idxs = Inr rf"
    and "copy_properties
          (w\<lparr>warnings := warnings w @
               (if int (len (frames w ! id_of tb)) < b_size
                then [''Size of table B is less than b_size parameter - using entire table B'']
                else []),
             frames := frames w @ [lf, rf]\<rparr>) ta (DataFrame (length (frames w))) True
           = Inr (ok_a, w4)"
  shows "down_sample py f rng w ta tb b_size y =
           (case copy_properties w4 tb (DataFrame (Suc (length (frames w)))) True of
              Inl e \<Rightarrow> Some (Inl e)
            | Inr okw \<Rightarrow> Some (Inr ((length (frames w), Suc (length (frames w))), snd okw)))"
proof (cases "int (len (frames w ! id_of tb)) < b_size")
  case True
  with assms(13) have "copy_properties
          (w\<lparr>warnings := warnings w @
               [''Size of table B is less than b_size parameter - using entire table B''],
             frames := frames w @ [lf, rf]\<rparr>) ta (DataFrame (length (frames w))) True
           = Inr (ok_a, w4)"
    by simp
  then show ?thesis using assms(1-12) True
    by (simp add: down_sample_def Let_def new_frame_def split: sum.splits)
next
  case False
  with assms(13) have "copy_properties (w\<lparr>frames := frames w @ [lf, rf]\<rparr>) ta
      (DataFrame (length (frames w))) True = Inr (ok_a, w4)" by simp
  then show ?thesis using assms(1-12) False
    by (simp add: down_sample_def Let_def new_frame_def split: sum.splits)
qed

text \<open>A call on valid inputs with fair draws and both catalog entries returns.\<close>

lemma down_sample_total:
  assumes "fair rng" "is_DataFrame w ta" "is_DataFrame w tb"
    and "rectangular (frames w ! id_of ta)" "rectangular (frames w ! id_of tb)"
    and "0 < len (frames w ! id_of ta)" "0 < len (frames w ! id_of tb)"
    and "0 < b_size" "0 < y" "y \<le> int (len (frames w ! id_of ta))"
    and "map_of (catalog w) (id_of ta) \<noteq> None" "map_of (catalog w) (id_of tb) \<noteq> None"
  shows "\<exists>l r w'. down_sample py (Some stop_lines) rng w ta tb b_size y = Some (Inr ((l, r), w'))"
proof -
  let ?a = "frames w ! id_of ta" and ?b = "frames w ! id_of tb"
  from sampling_steps_total[OF assms(1,4,5,6,7,8,9,10), where stop_lines = stop_lines and py = py]
  obtain idx i1 idxs bp i2 h lf rf where st:
    "inv_index py (Some stop_lines) ?a = Inr idx"
    "np_random_choice rng 0 (len ?b) (min b_size (int (len ?b))) = Inr (i1, idxs)"
    "ix ?b idxs = Inr bp"
    "probe_index py (Some stop_lines) rng i1 bp y (len ?a) idx = Some (Inr (i2, h))"
    "iloc ?a (sorted_list_of_set h) = Inr lf"
    "iloc ?b idxs = Inr rf" by blast
  let ?w3 = "w\<lparr>warnings := warnings w @
               (if int (len ?b) < b_size
                then [''Size of table B is less than b_size parameter - using entire table B'']
                else []),
             frames := frames w @ [lf, rf]\<rparr>"
  let ?l = "length (frames w)"
  have a3: "is_DataFrame ?w3 ta" and b3: "is_DataFrame ?w3 tb"
    using assms(2,3) by (auto intro: is_DataFrame_mono)
  have l3: "is_DataFrame ?w3 (DataFrame ?l)" and r3: "is_DataFrame ?w3 (DataFrame (Suc ?l))"
    by (simp_all add: is_DataFrame_def)
  have ca: "map_of (catalog ?w3) (id_of ta) \<noteq> None" using assms(11) by simp
  from copy_properties_total[OF a3 l3 ca] obtain w4 where
    c1: "copy_properties ?w3 ta (DataFrame ?l) True = Inr (True, w4)" by blast
  note p1 = copy_properties_result[OF c1]
  have ne: "id_of tb \<noteq> id_of (DataFrame ?l)"
    using is_DataFrame_id[OF assms(3)] by (simp add: id_of_def)
  have cb: "map_of (catalog w4) (id_of tb) \<noteq> None" using p1 ne assms(12) by simp
  have b4: "is_DataFrame w4 tb" and r4: "is_DataFrame w4 (DataFrame (Suc ?l))"
    using b3 r3 p1 by (auto intro: is_DataFrame_mono)
  from copy_properties_total[OF b4 r4 cb] obtain w5 where
    c2: "copy_properties w4 tb (DataFrame (Suc ?l)) True = Inr (True, w5)" by blast
  have "down_sample py (Some stop_lines) rng w ta tb b_size y = Some (Inr ((?l, Suc ?l), w5))"
    by (simp add: down_sample_copy_b[OF assms(2,3,6,7,8,9) st c1] c2)
  then show ?thesis by blast
qed

text \<open>The same call with a source table the catalog does not hold raises KeyError.\<close>

lemma down_sample_keyerror:
  assumes "fair rng" "is_DataFrame w ta" "is_DataFrame w tb"
    and "rectangular (frames w ! id_of ta)" "rectangular (frames w ! id_of tb)"
    and "0 < len (frames w ! id_of ta)" "0 < len (frames w ! id_of tb)"
    and "0 < b_size" "0 < y" "y \<le> int (len (frames w ! id_of ta))"
    and "map_of (catalog w) (id_of ta) = None \<or> map_of (catalog w) (id_of tb) = None"
  shows "down_sample py (Some stop_lines) rng w ta tb b_size y = Some (Inl KeyError)"
proof -
  let ?a = "frames w ! id_of ta" and ?b = "frames w ! id_of tb"
  from sampling_steps_total[OF assms(1,4,5,6,7,8,9,10), where stop_lines = stop_lines and py = py]
  obtain idx i1 idxs bp i2 h lf rf where st:
    "inv_index py (Some stop_lines) ?a = Inr idx"
    "np_random_choice rng 0 (len ?b) (min b_size (int (len ?b))) = Inr (i1, idxs)"
    "ix ?b idxs = Inr bp"
    "probe_index py (Some stop_lines) rng i1 bp y (len ?a) idx = Some (Inr (i2, h))"
    "iloc ?a (sorted_list_of_set h) = Inr lf"
    "iloc ?b idxs = Inr rf" by blast
  let ?w3 = "w\<lparr>warnings := warnings w @
               (if int (len ?b) < b_size
                then [''Size of table B is less than b_size parameter - using entire table B'']
                else []),
             frames := frames w @ [lf, rf]\<rparr>"
  let ?l = "length (frames w)"
  have a3: "is_DataFrame ?w3 ta" and b3: "is_DataFrame ?w3 tb"
    using assms(2,3) by (auto intro: is_DataFrame_mono)
  have l3: "is_DataFrame ?w3 (DataFrame ?l)" and r3: "is_DataFrame ?w3 (DataFrame (Suc ?l))"
    by (simp_all add: is_DataFrame_def)
  have k3: "catalog ?w3 = catalog w" by simp
  show ?thesis
  proof (cases "map_of (catalog w) (id_of ta) = None")
    case True
    then have "map_of (catalog ?w3) (id_of ta) = None" by (simp only: k3)
    from copy_properties_missing[OF this a3 l3]
    show ?thesis by (rule down_sample_copy_a[OF assms(2,3,6,7,8,9) st])
  next
    case False
    have tbn: "map_of (catalog w) (id_of tb) = None"
      by (rule disjE[OF assms(11)]) (use False in simp_all)
    from False have "map_of (catalog ?w3) (id_of ta) \<noteq> None" by simp
    from copy_properties_total[OF a3 l3 this] obtain w4 where
      c1: "copy_properties ?w3 ta (DataFrame ?l) True = Inr (True, w4)" by blast
    note p1 = copy_properties_result[OF c1]
    have ne: "id_of tb \<noteq> id_of (DataFrame ?l)"
      using is_DataFrame_id[OF assms(3)] by (simp add: id_of_def)
    have "map_of (catalog w4) (id_of tb) = map_of (catalog ?w3) (id_of tb)" using p1 ne by blast
    then have cb: "map_of (catalog w4) (id_of tb) = None" using tbn by (simp only: k3)
    have b4: "is_DataFrame w4 tb" and r4: "is_DataFrame w4 (DataFrame (Suc ?l))"
      using b3 r3 p1 by (auto intro: is_DataFrame_mono)
    from copy_properties_missing[OF cb b4 r4]
    show ?thesis by (simp add: down_sample_copy_b[OF assms(2,3,6,7,8,9) st c1])
  qed
qed

section \<open>What a successful call leaves behind\<close>

lemma down_sample_result:
  assumes "down_sample py f rng w ta tb b_size y = Some (Inr ((l, r), w'))"
  shows "\<exists>idxs h lf rf.
      is_DataFrame w ta \<and> is_DataFrame w tb
    \<and> distinct idxs \<and> set idxs \<subseteq> {..<len (frames w ! id_of tb)}
    \<and> int (length idxs) = min b_size (int (len (frames w ! id_of tb)))
    \<and> iloc (frames w ! id_of ta) (sorted_list_of_set h) = Inr lf
    \<and> iloc (frames w ! id_of tb) idxs = Inr rf
    \<and> l = length (frames w) \<and> r = Suc (length (frames w))
    \<and> frames w' = frames w @ [lf, rf]
    \<and> warnings w' = warnings w @
         (if int (len (frames w ! id_of tb)) < b_size
          then [''Size of table B is less than b_size parameter - using entire table B''] else [])
    \<and> map_of (catalog w) (id_of ta) \<noteq> None \<and> map_of (catalog w) (id_of tb) \<noteq> None
    \<and> (\<forall>d. d \<noteq> l \<and> d \<noteq> r \<longrightarrow> map_of (catalog w') d = map_of (catalog w) d)"
proof -
  let ?a = "frames w ! id_of ta" and ?b = "frames w ! id_of tb"
  let ?l = "length (frames w)"
  from down_sample_success[OF assms]
  obtain idx i1 idxs bp i2 h lf rf ok_a w4 ok_b where s:
    "is_DataFrame w ta" "is_DataFrame w tb"
    "np_random_choice rng 0 (len ?b) (min b_size (int (len ?b))) = Inr (i1, idxs)"
    "iloc ?a (sorted_list_of_set h) = Inr lf"
    "iloc ?b idxs = Inr rf"
    "l = ?l" "r = Suc ?l"
    and c1: "copy_properties
          (w\<lparr>warnings := warnings w @
               (if int (len ?b) < b_size
                then [''Size of table B is less than b_size parameter - using entire table B'']
                else []),
             frames := frames w @ [lf, rf]\<rparr>) ta (DataFrame l) True = Inr (ok_a, w4)"
    and c2: "copy_properties w4 tb (DataFrame r) True = Inr (ok_b, w')"
    by blast
  note p1 = copy_properties_result[OF c1]
  note p2 = copy_properties_result[OF c2]
  note cp = np_random_choice_props[OF s(3)]
  have ida: "id_of ta < ?l" and idb: "id_of tb < ?l"
    using s(1,2) by (simp_all add: is_DataFrame_id)
  have fr: "frames w' = frames w @ [lf, rf]" using p1 p2 by simp
  have wr: "warnings w' = warnings w @
         (if int (len ?b) < b_size
          then [''Size of table B is less than b_size parameter - using entire table B''] else [])"
    using p1 p2 by simp
  have ea: "map_of (catalog w) (id_of ta) \<noteq> None" using p1 by simp
  have "map_of (catalog w4) (id_of tb) \<noteq> None" using p2 by blast
  moreover have "map_of (catalog w4) (id_of tb) = map_of (catalog w) (id_of tb)"
    using p1 idb s(6) by (simp add: id_of_def)
  ultimately have eb: "map_of (catalog w) (id_of tb) \<noteq> None" by simp
  have oth: "\<forall>d. d \<noteq> l \<and> d \<noteq> r \<longrightarrow> map_of (catalog w') d = map_of (catalog w) d"
    using p1 p2 by (simp add: id_of_def)
  show ?thesis
    using s(1,2,4,5,6,7) cp fr wr ea eb oth
    by (intro exI[of _ idxs] exI[of _ h] exI[of _ lf] exI[of _ rf]) simp
qed

text \<open>The validation at the head of the call does not depend on the file or the draws.\<close>

lemma down_sample_validation:
  assumes "\<not> is_DataFrame w ta \<or> \<not> is_DataFrame w tb
         \<or> len (frames w ! id_of ta) = 0 \<or> len (frames w ! id_of tb) = 0 \<or> b_size = 0 \<or> y = 0"
  shows "down_sample py f rng w ta tb b_size y = Some (Inl AssertionError)"
  using assms by (auto simp: down_sample_def Let_def)

text \<open>One run on the example inputs, evaluated.\<close>

lemma example_run:
  "down_sample Python3 example_stop_words_file (\<lambda>i. i) example_world (DataFrame 0) (DataFrame 1) 1 2 =
   Some (Inr ((2, 3),
     \<lparr>frames = [example_a, example_b,
         \<lparr>columns = [(''name'', Object), (''qty'', Int64)],
            body = IntIndexed [(0, [Str ''Apple pie'', Num 3]), (2, [Str ''kiwi of pear'', Num 7])]\<rparr>,
         \<lparr>columns = [(''name'', Object)], body = IntIndexed [(1, [Str ''apple''])]\<rparr>],
      catalog = [(0, [(''key'', PStr ''name'')]), (1, []), (2, [(''key'', PStr ''name'')]), (3, [])],
      warnings = []\<rparr>))"
  by code_simp

lemma example_world_ok:
  "is_DataFrame example_world (DataFrame 0) \<and> is_DataFrame example_world (DataFrame 1)
   \<and> frames example_world ! id_of (DataFrame 0) = example_a
   \<and> frames example_world ! id_of (DataFrame 1) = example_b"
  by (simp add: is_DataFrame_def example_world_def id_of_def)

section \<open>Claims on the whole call\<close>

text \<open>
  C10. A successful call leaves every frame that was there before the call as it
  was, the two inputs among them: same columns, same rows with the same labels, in the
  same order. The two results are new frames, at identities that no frame had before,
  selected by position from the inputs. The catalog entries of the inputs are the same
  after the call.
\<close>

theorem down_sample_leaves_inputs:
  assumes "down_sample py stop_words_file rng w table_a table_b b_size y_param
             = Some (Inr ((l_sampled, r_sampled), w'))"
  shows "take (length (frames w)) (frames w') = frames w
       \<and> length (frames w') = length (frames w) + 2
       \<and> frames w' ! id_of table_a = frames w ! id_of table_a
       \<and> frames w' ! id_of table_b = frames w ! id_of table_b
       \<and> l_sampled = length (frames w) \<and> r_sampled = Suc (length (frames w))
       \<and> id_of table_a < l_sampled \<and> id_of table_b < l_sampled
       \<and> (\<exists>positions. iloc (frames w ! id_of table_a) positions = Inr (frames w' ! l_sampled))
       \<and> (\<exists>positions. iloc (frames w ! id_of table_b) positions = Inr (frames w' ! r_sampled))
       \<and> map_of (catalog w') (id_of table_a) = map_of (catalog w) (id_of table_a)
       \<and> map_of (catalog w') (id_of table_b) = map_of (catalog w) (id_of table_b)"
proof -
  from down_sample_result[OF assms] obtain idxs h lf rf where s:
    "is_DataFrame w table_a" "is_DataFrame w table_b"
    "iloc (frames w ! id_of table_a) (sorted_list_of_set h) = Inr lf"
    "iloc (frames w ! id_of table_b) idxs = Inr rf"
    "l_sampled = length (frames w)" "r_sampled = Suc (length (frames w))"
    "frames w' = frames w @ [lf, rf]"
    "\<forall>d. d \<noteq> l_sampled \<and> d \<noteq> r_sampled \<longrightarrow> map_of (catalog w') d = map_of (catalog w) d"
    by blast
  have ida: "id_of table_a < length (frames w)" and idb: "id_of table_b < length (frames w)"
    using s(1,2) by (simp_all add: is_DataFrame_id)
  have l: "frames w' ! l_sampled = lf" and r: "frames w' ! r_sampled = rf"
    using s(5,6,7) by (simp_all add: nth_append)
  have "\<exists>positions. iloc (frames w ! id_of table_a) positions = Inr (frames w' ! l_sampled)"
    using s(3) l by auto
  moreover have "\<exists>positions. iloc (frames w ! id_of table_b) positions = Inr (frames w' ! r_sampled)"
    using s(4) r by auto
  moreover have "map_of (catalog w') (id_of table_a) = map_of (catalog w) (id_of table_a)"
    "map_of (catalog w') (id_of table_b) = map_of (catalog w) (id_of table_b)"
    using s(5,6,8) ida idb by simp_all
  ultimately show ?thesis using s(5,6,7) ida idb by (simp add: nth_append)
qed

theorem down_sample_leaves_inputs_witness:
  "\<exists>w'. down_sample Python3 example_stop_words_file (\<lambda>i. i) example_world (DataFrame 0) (DataFrame 1) 1 2
           = Some (Inr ((2, 3), w'))
      \<and> take 2 (frames w') = [example_a, example_b] \<and> length (frames w') = 4
      \<and> frames w' ! 0 = example_a \<and> frames w' ! 1 = example_b"
proof -
  note t = down_sample_leaves_inputs[OF example_run]
  show ?thesis
    using t example_run by (simp add: example_world_def id_of_def)
qed

text \<open>
  C5. The positions drawn for \<open>B'\<close> are distinct, below \<open>len table_b\<close>, and there are
  \<open>min size (len table_b)\<close> of them; \<open>B'\<close> is \<open>table_b\<close> at these positions. When \<open>size\<close>
  exceeds \<open>len table_b\<close> the positions are all of \<open>0 ..< len table_b\<close>, and the call logs
  the warning instead of failing: on valid inputs with both catalog entries, fair draws
  and at least \<open>y_param\<close> rows in \<open>table_a\<close>, it returns.
\<close>

theorem b_sample_positions:
  "(\<forall>l_sampled r_sampled w'.
      down_sample py stop_words_file rng w table_a table_b b_size y_param
        = Some (Inr ((l_sampled, r_sampled), w')) \<longrightarrow>
      (\<exists>b_tbl_indices. distinct b_tbl_indices
         \<and> int (length b_tbl_indices) = min b_size (int (len (frames w ! id_of table_b)))
         \<and> set b_tbl_indices \<subseteq> {..<len (frames w ! id_of table_b)}
         \<and> (int (len (frames w ! id_of table_b)) < b_size \<longrightarrow>
               set b_tbl_indices = {..<len (frames w ! id_of table_b)})
         \<and> iloc (frames w ! id_of table_b) b_tbl_indices = Inr (frames w' ! r_sampled))
      \<and> (int (len (frames w ! id_of table_b)) < b_size \<longrightarrow>
            warnings w' = warnings w @
              [''Size of table B is less than b_size parameter - using entire table B'']))
   \<and> (fair rng \<and> is_DataFrame w table_a \<and> is_DataFrame w table_b
        \<and> rectangular (frames w ! id_of table_a) \<and> rectangular (frames w ! id_of table_b)
        \<and> 0 < len (frames w ! id_of table_a) \<and> 0 < len (frames w ! id_of table_b)
        \<and> 0 < b_size \<and> 0 < y_param \<and> y_param \<le> int (len (frames w ! id_of table_a))
        \<and> map_of (catalog w) (id_of table_a) \<noteq> None \<and> map_of (catalog w) (id_of table_b) \<noteq> None
        \<and> stop_words_file = Some stop_lines \<longrightarrow>
       (\<exists>l_sampled r_sampled w'.
          down_sample py stop_words_file rng w table_a table_b b_size y_param
            = Some (Inr ((l_sampled, r_sampled), w'))))"
proof (intro conjI allI impI)
  fix l_sampled r_sampled w'
  let ?b = "frames w ! id_of table_b"
  assume d: "down_sample py stop_words_file rng w table_a table_b b_size y_param
        = Some (Inr ((l_sampled, r_sampled), w'))"
  from down_sample_result[OF d] obtain idxs h lf rf where s:
    "distinct idxs" "set idxs \<subseteq> {..<len ?b}"
    "int (length idxs) = min b_size (int (len ?b))"
    "iloc ?b idxs = Inr rf"
    "r_sampled = Suc (length (frames w))"
    "frames w' = frames w @ [lf, rf]"
    "warnings w' = warnings w @
         (if int (len ?b) < b_size
          then [''Size of table B is less than b_size parameter - using entire table B''] else [])"
    by blast
  have r: "frames w' ! r_sampled = rf" using s(5,6) by (simp add: nth_append)
  have all: "int (len ?b) < b_size \<longrightarrow> set idxs = {..<len ?b}"
  proof
    assume "int (len ?b) < b_size"
    then have "length idxs = len ?b" using s(3) by simp
    from distinct_all_positions[OF s(1,2) this] show "set idxs = {..<len ?b}" .
  qed
  show "\<exists>b_tbl_indices. distinct b_tbl_indices
         \<and> int (length b_tbl_indices) = min b_size (int (len ?b))
         \<and> set b_tbl_indices \<subseteq> {..<len ?b}
         \<and> (int (len ?b) < b_size \<longrightarrow> set b_tbl_indices = {..<len ?b})
         \<and> iloc ?b b_tbl_indices = Inr (frames w' ! r_sampled)"
    using s(1,2,3,4) r all by (intro exI[of _ idxs]) simp
  assume "int (len ?b) < b_size"
  then show "warnings w' = warnings w @
              [''Size of table B is less than b_size parameter - using entire table B'']"
    using s(7) by simp
next
  assume a: "fair rng \<and> is_DataFrame w table_a \<and> is_DataFrame w table_b
        \<and> rectangular (frames w ! id_of table_a) \<and> rectangular (frames w ! id_of table_b)
        \<and> 0 < len (frames w ! id_of table_a) \<and> 0 < len (frames w ! id_of table_b)
        \<and> 0 < b_size \<and> 0 < y_param \<and> y_param \<le> int (len (frames w ! id_of table_a))
        \<and> map_of (catalog w) (id_of table_a) \<noteq> None \<and> map_of (catalog w) (id_of table_b) \<noteq> None
        \<and> stop_words_file = Some stop_lines"
  then have f: "stop_words_file = Some stop_lines" by simp
  have "\<exists>l r w'. down_sample py (Some stop_lines) rng w table_a table_b b_size y_param
            = Some (Inr ((l, r), w'))"
    by (rule down_sample_total) (use a in simp_all)
  then show "\<exists>l_sampled r_sampled w'.
          down_sample py stop_words_file rng w table_a table_b b_size y_param
            = Some (Inr ((l_sampled, r_sampled), w'))"
    unfolding f .
qed

text \<open>A run with \<open>size\<close> larger than \<open>table_b\<close>, evaluated.\<close>

lemma example_run_oversized:
  "down_sample Python3 example_stop_words_file (\<lambda>i. i) example_world (DataFrame 0) (DataFrame 1) 102 2 =
   Some (Inr ((2, 3),
     \<lparr>frames = [example_a, example_b,
         \<lparr>columns = [(''name'', Object), (''qty'', Int64)],
            body = IntIndexed [(0, [Str ''Apple pie'', Num 3]), (2, [Str ''kiwi of pear'', Num 7])]\<rparr>,
         \<lparr>columns = [(''name'', Object)],
            body = IntIndexed [(1, [Str ''apple'']), (0, [Str ''kiwi''])]\<rparr>],
      catalog = [(0, [(''key'', PStr ''name'')]), (1, []), (2, [(''key'', PStr ''name'')]), (3, [])],
      warnings = [''Size of table B is less than b_size parameter - using entire table B'']\<rparr>))"
  by code_simp

theorem b_sample_positions_witness:
  "(\<exists>l_sampled r_sampled w'.
      down_sample Python3 example_stop_words_file (\<lambda>i. i) example_world (DataFrame 0) (DataFrame 1) 102 2
        = Some (Inr ((l_sampled, r_sampled), w'))
      \<and> warnings w' = [''Size of table B is less than b_size parameter - using entire table B'']
      \<and> (\<exists>b_tbl_indices. distinct b_tbl_indices \<and> int (length b_tbl_indices) = 2
            \<and> set b_tbl_indices = {..<2}
            \<and> iloc example_b b_tbl_indices = Inr (frames w' ! r_sampled)))"
proof -
  note t = b_sample_positions[of Python3 example_stop_words_file "\<lambda>i. i" example_world
      "DataFrame 0" "DataFrame 1" 102 2 "[''the'' @ [CHR 0x0A], ''of'' @ [CHR 0x0A]]"]
  have lb: "len example_b = 2" and la: "len example_a = 3"
    by (simp_all add: len_def itertuples_def example_b_def example_a_def)
  have pre: "fair (\<lambda>i. i) \<and> is_DataFrame example_world (DataFrame 0)
        \<and> is_DataFrame example_world (DataFrame 1)
        \<and> rectangular (frames example_world ! id_of (DataFrame 0))
        \<and> rectangular (frames example_world ! id_of (DataFrame 1))
        \<and> 0 < len (frames example_world ! id_of (DataFrame 0))
        \<and> 0 < len (frames example_world ! id_of (DataFrame 1))
        \<and> (0::int) < 102 \<and> (0::int) < 2 \<and> 2 \<le> int (len (frames example_world ! id_of (DataFrame 0)))
        \<and> map_of (catalog example_world) (id_of (DataFrame 0)) \<noteq> None
        \<and> map_of (catalog example_world) (id_of (DataFrame 1)) \<noteq> None
        \<and> example_stop_words_file = Some [''the'' @ [CHR 0x0A], ''of'' @ [CHR 0x0A]]"
    using fair_id example_a_ok example_b_ok example_world_ok
    by (simp add: la example_world_def id_of_def example_stop_words_file_def)
  from t[THEN conjunct2, rule_format, OF pre] obtain l r w' where
    d: "down_sample Python3 example_stop_words_file (\<lambda>i. i) example_world (DataFrame 0) (DataFrame 1) 102 2
        = Some (Inr ((l, r), w'))" by blast
  have big: "int (len (frames example_world ! id_of (DataFrame 1))) < 102"
    by (simp add: example_world_def id_of_def lb)
  note c = t[THEN conjunct1, rule_format, OF d]
  from c[THEN conjunct1] obtain idxs where i:
    "distinct idxs"
    "int (length idxs) = min 102 (int (len (frames example_world ! id_of (DataFrame 1))))"
    "int (len (frames example_world ! id_of (DataFrame 1))) < 102 \<longrightarrow>
       set idxs = {..<len (frames example_world ! id_of (DataFrame 1))}"
    "iloc (frames example_world ! id_of (DataFrame 1)) idxs = Inr (frames w' ! r)"
    by blast
  have fb: "frames example_world ! id_of (DataFrame 1) = example_b"
    by (simp add: example_world_def id_of_def)
  have w: "warnings w' = [''Size of table B is less than b_size parameter - using entire table B'']"
    using c[THEN conjunct2, rule_format, OF big] by (simp add: example_world_def)
  have "distinct idxs \<and> int (length idxs) = 2 \<and> set idxs = {..<2}
        \<and> iloc example_b idxs = Inr (frames w' ! r)"
    using i big unfolding fb by (simp add: lb)
  then show ?thesis using d w by blast
qed

text \<open>
  C1, as the specification states it: a source table without a catalog entry does not
  make the call fail. It does: on the example inputs, with the entry of \<open>table_a\<close>
  taken out of the catalog, the call raises KeyError.
\<close>

theorem missing_entry_counterexample:
  "down_sample Python3 example_stop_words_file (\<lambda>i. i) (example_world\<lparr>catalog := [(1, [])]\<rparr>)
     (DataFrame 0) (DataFrame 1) 1 2 = Some (Inl KeyError)"
  by code_simp

text \<open>
  C1, amended. If \<open>table_a\<close> or \<open>table_b\<close> has no entry in the catalog, no call returns
  \<open>(A', B')\<close>; on valid inputs with fair draws the sampling is done and the metadata copy
  raises the not-found error of \<^verbatim>\<open>copy_properties\<close>, KeyError, which reaches the caller.
\<close>

theorem missing_entry_is_keyerror:
  assumes "map_of (catalog w) (id_of table_a) = None \<or> map_of (catalog w) (id_of table_b) = None"
  shows "(\<forall>res. down_sample py stop_words_file rng w table_a table_b b_size y_param \<noteq> Some (Inr res))
       \<and> (fair rng \<and> is_DataFrame w table_a \<and> is_DataFrame w table_b
            \<and> rectangular (frames w ! id_of table_a) \<and> rectangular (frames w ! id_of table_b)
            \<and> 0 < len (frames w ! id_of table_a) \<and> 0 < len (frames w ! id_of table_b)
            \<and> 0 < b_size \<and> 0 < y_param \<and> y_param \<le> int (len (frames w ! id_of table_a))
            \<and> stop_words_file = Some stop_lines \<longrightarrow>
           down_sample py stop_words_file rng w table_a table_b b_size y_param = Some (Inl KeyError))"
proof (intro conjI allI impI)
  fix res
  show "down_sample py stop_words_file rng w table_a table_b b_size y_param \<noteq> Some (Inr res)"
  proof
    assume d: "down_sample py stop_words_file rng w table_a table_b b_size y_param = Some (Inr res)"
    obtain l r w' where "res = ((l, r), w')" by (cases res) auto
    with d have "down_sample py stop_words_file rng w table_a table_b b_size y_param
                   = Some (Inr ((l, r), w'))" by simp
    from down_sample_result[OF this]
    have "map_of (catalog w) (id_of table_a) \<noteq> None \<and> map_of (catalog w) (id_of table_b) \<noteq> None"
      by blast
    with assms show False by blast
  qed
next
  assume a: "fair rng \<and> is_DataFrame w table_a \<and> is_DataFrame w table_b
            \<and> rectangular (frames w ! id_of table_a) \<and> rectangular (frames w ! id_of table_b)
            \<and> 0 < len (frames w ! id_of table_a) \<and> 0 < len (frames w ! id_of table_b)
            \<and> 0 < b_size \<and> 0 < y_param \<and> y_param \<le> int (len (frames w ! id_of table_a))
            \<and> stop_words_file = Some stop_lines"
  then have f: "stop_words_file = Some stop_lines" by simp
  have "down_sample py (Some stop_lines) rng w table_a table_b b_size y_param = Some (Inl KeyError)"
    by (rule down_sample_keyerror) (use a assms in simp_all)
  then show "down_sample py stop_words_file rng w table_a table_b b_size y_param = Some (Inl KeyError)"
    unfolding f .
qed

theorem missing_entry_is_keyerror_witness:
  "down_sample Python3 example_stop_words_file (\<lambda>i. i) (example_world\<lparr>catalog := [(0, [])]\<rparr>)
     (DataFrame 0) (DataFrame 1) 1 2 = Some (Inl KeyError)"
proof -
  let ?w = "example_world\<lparr>catalog := [(0, [])]\<rparr>"
  have h: "map_of (catalog ?w) (id_of (DataFrame 0)) = None \<or> map_of (catalog ?w) (id_of (DataFrame 1)) = None"
    by (simp add: id_of_def)
  note t = missing_entry_is_keyerror[OF h, where rng = "\<lambda>i. i" and b_size = 1 and y_param = 2
      and stop_words_file = example_stop_words_file
      and stop_lines = "[''the'' @ [CHR 0x0A], ''of'' @ [CHR 0x0A]]"]
  have la: "len example_a = 3"
    by (simp add: len_def itertuples_def example_a_def)
  have pre: "fair (\<lambda>i. i) \<and> is_DataFrame ?w (DataFrame 0) \<and> is_DataFrame ?w (DataFrame 1)
            \<and> rectangular (frames ?w ! id_of (DataFrame 0)) \<and> rectangular (frames ?w ! id_of (DataFrame 1))
            \<and> 0 < len (frames ?w ! id_of (DataFrame 0)) \<and> 0 < len (frames ?w ! id_of (DataFrame 1))
            \<and> (0::int) < 1 \<and> (0::int) < 2 \<and> 2 \<le> int (len (frames ?w ! id_of (DataFrame 0)))
            \<and> example_stop_words_file = Some [''the'' @ [CHR 0x0A], ''of'' @ [CHR 0x0A]]"
    using fair_id example_a_ok example_b_ok
    by (simp add: la example_world_def id_of_def is_DataFrame_def example_stop_words_file_def)
  show ?thesis by (rule t[THEN conjunct2, rule_format, OF pre])
qed

section \<open>Rows read by label and rows read by position\<close>

lemma filter_single:
  "k < length xs \<Longrightarrow> P (xs ! k) \<Longrightarrow> (\<forall>j<length xs. j \<noteq> k \<longrightarrow> \<not> P (xs ! j))
   \<Longrightarrow> filter P xs = [xs ! k]"
proof (induction xs arbitrary: k)
  case Nil
  then show ?case by simp
next
  case (Cons x xs)
  show ?case
  proof (cases k)
    case 0
    have "\<forall>j<length xs. \<not> P (xs ! j)"
    proof (intro allI impI)
      fix j assume "j < length xs"
      then have "Suc j < length (x # xs)" "Suc j \<noteq> k" using 0 by simp_all
      from Cons.prems(3)[rule_format, OF this] show "\<not> P (xs ! j)" by simp
    qed
    then have "filter P xs = []" by (auto simp: filter_empty_conv in_set_conv_nth)
    then show ?thesis using 0 Cons.prems(2) by simp
  next
    case (Suc k')
    have nx: "\<not> P x" using Cons.prems(3)[rule_format, of 0] Suc by simp
    have "\<forall>j<length xs. j \<noteq> k' \<longrightarrow> \<not> P (xs ! j)"
    proof (intro allI impI)
      fix j assume "j < length xs" "j \<noteq> k'"
      then have "Suc j < length (x # xs)" "Suc j \<noteq> k" using Suc by simp_all
      from Cons.prems(3)[rule_format, OF this] show "\<not> P (xs ! j)" by simp
    qed
    from Cons.IH[of k', OF _ _ this] Cons.prems(1,2) Suc nx show ?thesis by simp
  qed
qed

text \<open>
  On a frame with the default labels \<open>0, 1, 2, \<dots>\<close>, and on a frame whose labels are not
  integers, \<^verbatim>\<open>.ix\<close> and \<^verbatim>\<open>.iloc\<close> read the same rows.
\<close>

lemma ix_default_labels:
  assumes "body t = IntIndexed rs" "map fst rs = map int [0 ..< length rs]"
    and "set keys \<subseteq> {..<len t}"
  shows "ix t keys = iloc t keys"
proof -
  have n: "len t = length rs" using assms(1) by (simp add: len_def itertuples_def)
  have lab: "\<And>j. j < length rs \<Longrightarrow> fst (rs ! j) = int j"
  proof -
    fix j assume j: "j < length rs"
    then have "fst (rs ! j) = map fst rs ! j" by simp
    also have "\<dots> = int j" using j by (simp add: assms(2))
    finally show "fst (rs ! j) = int j" .
  qed
  have one: "\<And>k. k \<in> set keys \<Longrightarrow>
      (case filter (\<lambda>lr. fst lr = int k) rs of
         [] \<Rightarrow> [(int k, replicate (length (columns t)) NaN)]
       | hit # hits \<Rightarrow> hit # hits) = [rs ! k]"
  proof -
    fix k assume "k \<in> set keys"
    then have k: "k < length rs" using assms(3) n by auto
    have "filter (\<lambda>lr. fst lr = int k) rs = [rs ! k]"
      by (rule filter_single[OF k]) (use lab k in auto)
    then show "(case filter (\<lambda>lr. fst lr = int k) rs of
         [] \<Rightarrow> [(int k, replicate (length (columns t)) NaN)]
       | hit # hits \<Rightarrow> hit # hits) = [rs ! k]" by simp
  qed
  have "concat (map (\<lambda>k. (case filter (\<lambda>lr. fst lr = int k) rs of
         [] \<Rightarrow> [(int k, replicate (length (columns t)) NaN)]
       | hit # hits \<Rightarrow> hit # hits)) keys) = concat (map (\<lambda>k. [rs ! k]) keys)"
    by (rule arg_cong[where f = concat]) (simp add: one)
  also have "\<dots> = map (\<lambda>p. rs ! p) keys" by (induction keys) simp_all
  finally have c: "concat (map (\<lambda>k. (case filter (\<lambda>lr. fst lr = int k) rs of
         [] \<Rightarrow> [(int k, replicate (length (columns t)) NaN)]
       | hit # hits \<Rightarrow> hit # hits)) keys) = map (\<lambda>p. rs ! p) keys" .
  have r: "\<forall>p\<in>set keys. p < len t" using assms(3) by auto
  show ?thesis
    using assms(1) c r by (simp add: ix_def iloc_def list_all_iff)
qed

lemma ix_object_labels: "body t = ObjIndexed rs \<Longrightarrow> ix t keys = iloc t keys"
  by (simp add: ix_def)

text \<open>
  C2. The rows that are probed are \<^verbatim>\<open>table_b.ix[b_tbl_indices]\<close> and the rows of \<open>B'\<close>
  are \<^verbatim>\<open>table_b.iloc[b_tbl_indices]\<close>. On \<open>example_b\<close>, whose integer labels are \<open>1, 0\<close>,
  the drawn position \<open>0\<close> probes the row labelled \<open>0\<close> (kiwi, at position \<open>1\<close>) and puts the
  row at position \<open>0\<close> (apple) into \<open>B'\<close>; \<open>A'\<close> then holds the row of \<open>example_a\<close> that
  matches kiwi and not the one that matches apple.
\<close>

theorem probed_row_is_not_sampled_row:
  "ix example_b [0] = Inr \<lparr>columns = [(''name'', Object)], body = IntIndexed [(0, [Str ''kiwi''])]\<rparr>
   \<and> iloc example_b [0] = Inr \<lparr>columns = [(''name'', Object)], body = IntIndexed [(1, [Str ''apple''])]\<rparr>
   \<and> down_sample Python3 example_stop_words_file (\<lambda>i. i + 2) example_world (DataFrame 0) (DataFrame 1) 1 2 =
      Some (Inr ((2, 3),
        \<lparr>frames = [example_a, example_b,
            \<lparr>columns = [(''name'', Object), (''qty'', Int64)],
               body = IntIndexed [(1, [Str ''The Pear'', Num 5]), (2, [Str ''kiwi of pear'', Num 7])]\<rparr>,
            \<lparr>columns = [(''name'', Object)], body = IntIndexed [(1, [Str ''apple''])]\<rparr>],
         catalog = [(0, [(''key'', PStr ''name'')]), (1, []), (2, [(''key'', PStr ''name'')]), (3, [])],
         warnings = []\<rparr>))"
  by code_simp

text \<open>
  C3. The validation refuses a value that is not a frame, an empty frame, and a
  \<open>size\<close> or \<open>y_param\<close> equal to zero. A negative value passes it: with \<open>size = -1\<close> the
  index is built (the missing stop word file is noticed) and the call then raises
  ValueError from the sampling of \<open>table_b\<close>; with \<open>y_param = -1\<close> the call returns, with
  an empty \<open>A'\<close>.
\<close>

theorem negative_parameters_pass_validation:
  "down_sample Python3 example_stop_words_file (\<lambda>i. i) example_world (DataFrame 0) (DataFrame 1) (- 1) 2
     = Some (Inl ValueError)
   \<and> down_sample Python3 None (\<lambda>i. i) example_world (DataFrame 0) (DataFrame 1) (- 1) 2 = Some (Inl IOError)
   \<and> down_sample Python3 None (\<lambda>i. i) example_world (DataFrame 0) (DataFrame 1) 0 2 = Some (Inl AssertionError)
   \<and> down_sample Python3 example_stop_words_file (\<lambda>i. i) example_world (DataFrame 0) (DataFrame 1) 1 (- 1) =
      Some (Inr ((2, 3),
        \<lparr>frames = [example_a, example_b,
            \<lparr>columns = [(''name'', Object), (''qty'', Int64)], body = IntIndexed []\<rparr>,
            \<lparr>columns = [(''name'', Object)], body = IntIndexed [(1, [Str ''apple''])]\<rparr>],
         catalog = [(0, [(''key'', PStr ''name'')]), (1, []), (2, [(''key'', PStr ''name'')]), (3, [])],
         warnings = []\<rparr>))"
  by code_simp

end
